theory Spec2Isabelle
  imports Main "HOL-Library.Char_ord" "HOL-Library.List_Lexorder"
begin

section \<open>Strings as the path functions use them\<close>

text \<open>
  A JavaScript string is modelled as a HOL \<^typ>\<open>string\<close>, one \<^typ>\<open>char\<close> per code
  unit. The path functions only compare code units with the separator, the
  backslash, the period, the space, the control range and the letters of the
  reserved names, so nothing they do depends on the width of a code unit.
\<close>

definition slash :: char where
  "slash = CHR ''/''"

definition backslash :: char where
  "backslash = CHR 0x5C"

text \<open>\<open>s.split(c)\<close>: always at least one part; the empty string gives one empty part.\<close>

fun split_on :: "char \<Rightarrow> string \<Rightarrow> string list" where
  "split_on c [] = [[]]"
| "split_on c (x # xs) =
     (if x = c then [] # split_on c xs
      else (x # hd (split_on c xs)) # tl (split_on c xs))"

text \<open>\<open>parts.join('/')\<close>.\<close>

fun join_slash :: "string list \<Rightarrow> string" where
  "join_slash [] = []"
| "join_slash [p] = p"
| "join_slash (p # q # ps) = p @ slash # join_slash (q # ps)"

text \<open>\<open>s.replace(/\\/g, '/')\<close>.\<close>

definition replace_backslash :: "string \<Rightarrow> string" where
  "replace_backslash s = map (\<lambda>c. if c = backslash then slash else c) s"

text \<open>\<open>s.replace(/\/+/g, '/')\<close>: every run of separators becomes one separator.\<close>

fun collapse_slashes :: "string \<Rightarrow> string" where
  "collapse_slashes (a # b # cs) =
     (if a = slash \<and> b = slash then collapse_slashes (b # cs)
      else a # collapse_slashes (b # cs))"
| "collapse_slashes cs = cs"

definition startsWith :: "string \<Rightarrow> string \<Rightarrow> bool" where
  "startsWith s p = (take (length p) s = p)"

definition endsWith :: "string \<Rightarrow> string \<Rightarrow> bool" where
  "endsWith s p = (length p \<le> length s \<and> drop (length s - length p) s = p)"

text \<open>\<open>s.lastIndexOf('/')\<close>, with \<open>None\<close> for \<open>-1\<close>.\<close>

fun lastIndexOf :: "char \<Rightarrow> string \<Rightarrow> nat option" where
  "lastIndexOf c [] = None"
| "lastIndexOf c (x # xs) =
     (case lastIndexOf c xs of
        Some i \<Rightarrow> Some (Suc i)
      | None \<Rightarrow> if x = c then Some 0 else None)"

section \<open>normalizePath and the path utilities\<close>

text \<open>
  One round of the loop of \<open>normalizePath\<close>. The stack is kept bottom first, so the top
  of the stack is \<^const>\<open>last\<close>, \<open>pop\<close> is \<^const>\<open>butlast\<close> and \<open>push\<close> appends.
\<close>

definition normalize_step :: "bool \<Rightarrow> string list \<Rightarrow> string \<Rightarrow> string list" where
  "normalize_step isAbsolute stack part =
     (if part = [] \<or> part = ''.'' then stack
      else if part = ''..'' then
        (if stack \<noteq> [] \<and> last stack \<noteq> ''..'' then butlast stack
         else if \<not> isAbsolute then stack @ [''..'']
         else stack)
      else stack @ [part])"

definition normalizePath :: "string \<Rightarrow> string" where
  "normalizePath inputPath =
     (if inputPath = [] then ''/''
      else
        let normalized = collapse_slashes (replace_backslash inputPath);
            parts = split_on slash normalized;
            isAbsolute = startsWith normalized ''/'';
            stack = foldl (normalize_step isAbsolute) [] parts;
            joined = join_slash stack;
            result = (if isAbsolute then slash # joined else joined)
        in if result = [] then (if isAbsolute then ''/'' else ''.'') else result)"

definition dirname :: "string \<Rightarrow> string" where
  "dirname inputPath =
     (let normalized = normalizePath inputPath
      in if normalized = ''/'' then ''/''
         else (case lastIndexOf slash normalized of
                 None \<Rightarrow> ''.''
               | Some lastSlash \<Rightarrow>
                   if lastSlash = 0 then ''/'' else take lastSlash normalized))"

text \<open>\<open>basename\<close> as the file system calls it, without the optional suffix.\<close>

definition basename :: "string \<Rightarrow> string" where
  "basename inputPath =
     (let normalized = normalizePath inputPath
      in if normalized = ''/'' then []
         else (case lastIndexOf slash normalized of
                 None \<Rightarrow> normalized
               | Some lastSlash \<Rightarrow> drop (Suc lastSlash) normalized))"

text \<open>\<open>join(a, b)\<close> for the two-argument call made by \<open>resolveNode\<close>.\<close>

definition join :: "string \<Rightarrow> string \<Rightarrow> string" where
  "join a b =
     (let joined = (if a = [] then b else if b = [] then a else a @ slash # b)
      in normalizePath joined)"

definition splitPath :: "string \<Rightarrow> string list" where
  "splitPath inputPath = filter (\<lambda>p. p \<noteq> []) (split_on slash (normalizePath inputPath))"

section \<open>Errors\<close>

text \<open>
  The error classes of \<open>errors/file-system-errors\<close> that the file system and the path
  functions throw: each class extends \<open>FileSystemError\<close> and is constructed with the
  offending path; \<open>InvalidPathError\<close> is also given the reason text. The classes the
  file system never throws (\<open>PermissionError\<close>, \<open>DirectoryAlreadyExistsError\<close>,
  \<open>MaxDepthExceededError\<close>, \<open>IOError\<close>) are left out. The reasons are the texts that
  \<open>validatePath\<close> and \<open>validatePathSegment\<close> pass; a reason that quotes a segment carries
  it. \<open>SnapshotNotFound\<close> stands for the plain \<open>Error\<close> that \<open>restoreSnapshot\<close> and \<open>diff\<close> throw
  for an unknown snapshot id.
\<close>

datatype reason =
    PathEmpty
  | InvalidCharacters
  | PathTooLong
  | SegmentTooLong string
  | ReservedName string
  | TrailingSpaceOrPeriod string

datatype error =
    FileNotFoundError string
  | DirectoryNotFoundError string
  | DirectoryNotEmptyError string
  | FileAlreadyExistsError string
  | InvalidPathError string reason
  | NotAFileError string
  | NotADirectoryError string
  | NotASymlinkError string
  | SymlinkLoopError string
  | SnapshotNotFound string

section \<open>validatePath and resolvePath\<close>

definition RESERVED_NAMES :: "string list" where
  "RESERVED_NAMES =
     [''CON'', ''PRN'', ''AUX'', ''NUL'',
      ''COM1'', ''COM2'', ''COM3'', ''COM4'', ''COM5'', ''COM6'', ''COM7'', ''COM8'', ''COM9'',
      ''LPT1'', ''LPT2'', ''LPT3'', ''LPT4'', ''LPT5'', ''LPT6'', ''LPT7'', ''LPT8'', ''LPT9'']"

text \<open>
  \<open>toUpperCase\<close> on the letters \<open>a\<close> to \<open>z\<close>. No other code unit is mapped to a letter
  or digit of a reserved name, so the reserved-name test below is the source's.
\<close>

definition toUpperCase_char :: "char \<Rightarrow> char" where
  "toUpperCase_char c =
     (if CHR ''a'' \<le> c \<and> c \<le> CHR ''z'' then char_of (of_char c - (32 :: nat)) else c)"

definition toUpperCase :: "string \<Rightarrow> string" where
  "toUpperCase s = map toUpperCase_char s"

text \<open>\<open>INVALID_CHARS = /[\x00-\x1f]/\<close>.\<close>

definition INVALID_CHARS :: "string \<Rightarrow> bool" where
  "INVALID_CHARS s = (\<exists>c \<in> set s. (of_char c :: nat) \<le> 0x1f)"

definition validatePathSegment :: "string \<Rightarrow> string \<Rightarrow> error option" where
  "validatePathSegment segment fullPath =
     (if length segment > 255 then Some (InvalidPathError fullPath (SegmentTooLong segment))
      else
        let upperSegment = toUpperCase segment;
            baseSegment = hd (split_on CHR ''.'' upperSegment)
        in if baseSegment \<in> set RESERVED_NAMES
             then Some (InvalidPathError fullPath (ReservedName segment))
           else if endsWith segment '' '' \<or> endsWith segment ''.''
             then Some (InvalidPathError fullPath (TrailingSpaceOrPeriod segment))
           else None)"

text \<open>The loop over the parts stops at the first part that is rejected.\<close>

fun validate_parts :: "string list \<Rightarrow> string \<Rightarrow> error option" where
  "validate_parts [] inputPath = None"
| "validate_parts (part # parts) inputPath =
     (if part = ''.'' \<or> part = ''..'' then validate_parts parts inputPath
      else (case validatePathSegment part inputPath of
              Some e \<Rightarrow> Some e
            | None \<Rightarrow> validate_parts parts inputPath))"

text \<open>\<open>validatePath\<close> returns \<open>None\<close> when it returns normally and the error it throws otherwise.\<close>

definition validatePath :: "string \<Rightarrow> error option" where
  "validatePath inputPath =
     (if inputPath = [] then Some (InvalidPathError [] PathEmpty)
      else if INVALID_CHARS inputPath then Some (InvalidPathError inputPath InvalidCharacters)
      else if length inputPath > 4096 then Some (InvalidPathError inputPath PathTooLong)
      else validate_parts (filter (\<lambda>p. p \<noteq> []) (split_on slash inputPath)) inputPath)"

record PathResolution =
  fullPath :: string
  parentPath :: string
  name :: string
  segments :: "string list"
  isRoot :: bool

definition resolvePath :: "string \<Rightarrow> error + PathResolution" where
  "resolvePath inputPath =
     (case validatePath inputPath of
        Some e \<Rightarrow> Inl e
      | None \<Rightarrow>
          let full = normalizePath inputPath;
              r = (full = ''/'')
          in Inr \<lparr> fullPath = full,
                   parentPath = (if r then ''/'' else dirname full),
                   name = (if r then [] else basename full),
                   segments = splitPath full,
                   isRoot = r \<rparr>)"

section \<open>The node tree\<close>

text \<open>
  A node is a file with its bytes, a directory with its children, or a symbolic link
  with its target. The children of a directory are the entries of its \<open>Map\<close>, in
  insertion order; \<open>addChild\<close> stores a node under the node's own name, so the key of
  an entry is the name of the node. Time stamps, mode and owner are not part of this
  tree: no operation below reads them.

  No node is the child of two directories, so a node object is identified by the names
  that lead to it from the root through real directories: its location. A reference to
  a node is modelled as its location together with the node found there.
\<close>

type_synonym buffer = "nat list"

datatype VFSNode =
    VFSFile buffer
  | VFSDirectory "(string \<times> VFSNode) list"
  | VFSSymlink string

type_synonym children = "(string \<times> VFSNode) list"
type_synonym location = "string list"
type_synonym noderef = "location \<times> VFSNode"

fun isFile :: "VFSNode \<Rightarrow> bool" where
  "isFile (VFSFile _) = True"
| "isFile _ = False"

fun isDirectory :: "VFSNode \<Rightarrow> bool" where
  "isDirectory (VFSDirectory _) = True"
| "isDirectory _ = False"

fun isSymlink :: "VFSNode \<Rightarrow> bool" where
  "isSymlink (VFSSymlink _) = True"
| "isSymlink _ = False"

text \<open>The children of a directory node; a node of another kind has none.\<close>

fun getChildren :: "VFSNode \<Rightarrow> children" where
  "getChildren (VFSDirectory cs) = cs"
| "getChildren _ = []"

definition getChild :: "VFSNode \<Rightarrow> string \<Rightarrow> VFSNode option" where
  "getChild dir nm = map_of (getChildren dir) nm"

text \<open>\<open>Map.set\<close>: an existing key keeps its place, a new key goes last.\<close>

fun map_set :: "string \<Rightarrow> 'v \<Rightarrow> (string \<times> 'v) list \<Rightarrow> (string \<times> 'v) list" where
  "map_set k v [] = [(k, v)]"
| "map_set k v ((k', v') # cs) =
     (if k' = k then (k, v) # cs else (k', v') # map_set k v cs)"

definition map_delete :: "string \<Rightarrow> (string \<times> 'v) list \<Rightarrow> (string \<times> 'v) list" where
  "map_delete k cs = filter (\<lambda>(k', _). k' \<noteq> k) cs"

fun addChild :: "string \<Rightarrow> VFSNode \<Rightarrow> VFSNode \<Rightarrow> VFSNode" where
  "addChild nm node (VFSDirectory cs) = VFSDirectory (map_set nm node cs)"
| "addChild nm node other = other"

fun removeChild :: "string \<Rightarrow> VFSNode \<Rightarrow> VFSNode" where
  "removeChild nm (VFSDirectory cs) = VFSDirectory (map_delete nm cs)"
| "removeChild nm other = other"

text \<open>The node at a location, and the tree after the node at a location has been changed.\<close>

fun get_at :: "location \<Rightarrow> VFSNode \<Rightarrow> VFSNode option" where
  "get_at [] n = Some n"
| "get_at (s # ss) (VFSDirectory cs) =
     (case map_of cs s of None \<Rightarrow> None | Some c \<Rightarrow> get_at ss c)"
| "get_at (s # ss) other = None"

fun update_at :: "location \<Rightarrow> (VFSNode \<Rightarrow> VFSNode) \<Rightarrow> VFSNode \<Rightarrow> VFSNode"
  and update_child :: "string \<Rightarrow> location \<Rightarrow> (VFSNode \<Rightarrow> VFSNode) \<Rightarrow> children \<Rightarrow> children"
where
  "update_at [] f n = f n"
| "update_at (s # ss) f (VFSDirectory cs) = VFSDirectory (update_child s ss f cs)"
| "update_at (s # ss) f (VFSFile b) = VFSFile b"
| "update_at (s # ss) f (VFSSymlink t) = VFSSymlink t"
| "update_child s ss f [] = []"
| "update_child s ss f ((k, c) # cs) =
     (if k = s then (k, update_at ss f c) # cs else (k, c) # update_child s ss f cs)"

text \<open>The directory a reference points to, read from the current tree.\<close>

definition dir_at :: "VFSNode \<Rightarrow> location \<Rightarrow> VFSNode" where
  "dir_at rt loc = (case get_at loc rt of Some n \<Rightarrow> n | None \<Rightarrow> VFSDirectory [])"

section \<open>The file system and resolveNode\<close>

record VirtualFileSystem =
  root :: VFSNode
  maxSymlinkDepth :: nat
  snapshots :: "(string \<times> VFSNode) list"
  snapshotCounter :: nat

text \<open>\<open>createVFS\<close> with the default options and with a given symlink depth.\<close>

definition createVFS_with :: "nat \<Rightarrow> VirtualFileSystem" where
  "createVFS_with depth =
     \<lparr> root = VFSDirectory [], maxSymlinkDepth = depth, snapshots = [], snapshotCounter = 0 \<rparr>"

definition createVFS :: VirtualFileSystem where
  "createVFS = createVFS_with 40"

text \<open>
  The path a symbolic link is followed to, as \<open>resolveNode\<close> computes it from the
  segments walked before the link (\<open>segments.slice(0, i)\<close>) and the target.
\<close>

definition symlinkTargetPath :: "string list \<Rightarrow> string \<Rightarrow> string" where
  "symlinkTargetPath walked target =
     (if startsWith target ''/'' then target
      else join (dirname (slash # join_slash walked)) target)"

text \<open>
  The loop of \<open>resolveNode\<close>. \<open>rec\<close> is the recursive call with \<open>followSymlinks = true\<close>
  at \<open>depth + 1\<close>; \<open>walked\<close> holds the segments before the current one; \<open>rest = []\<close> after
  the current segment is the test \<open>i = segments.length - 1\<close>.
\<close>

fun walk ::
  "(string \<Rightarrow> error + noderef option) \<Rightarrow> bool \<Rightarrow> string list \<Rightarrow> string list \<Rightarrow> noderef
     \<Rightarrow> error + noderef option"
where
  "walk rec followSymlinks walked [] current = Inr (Some current)"
| "walk rec followSymlinks walked (segment # rest) current =
     (if \<not> isDirectory (snd current) then Inr None
      else
        (case getChild (snd current) segment of
           None \<Rightarrow> Inr None
         | Some child \<Rightarrow>
             (case child of
                VFSSymlink target \<Rightarrow>
                  if followSymlinks \<or> rest \<noteq> [] then
                    (case rec (symlinkTargetPath walked target) of
                       Inl e \<Rightarrow> Inl e
                     | Inr None \<Rightarrow> Inr None
                     | Inr (Some resolved) \<Rightarrow>
                         if rest = [] then
                           Inr (Some (if followSymlinks then resolved
                                      else (fst current @ [segment], child)))
                         else walk rec followSymlinks (walked @ [segment]) rest resolved)
                  else Inr (Some (fst current @ [segment], child))
              | _ \<Rightarrow>
                  walk rec followSymlinks (walked @ [segment]) rest
                    (fst current @ [segment], child))))"

function resolveNode ::
  "nat \<Rightarrow> VFSNode \<Rightarrow> string \<Rightarrow> bool \<Rightarrow> nat \<Rightarrow> error + noderef option"
where
  "resolveNode maxDepth rt inputPath followSymlinks depth =
     (if depth > maxDepth then Inl (SymlinkLoopError inputPath)
      else
        (case resolvePath inputPath of
           Inl e \<Rightarrow> Inl e
         | Inr r \<Rightarrow>
             if isRoot r then Inr (Some ([], rt))
             else walk (\<lambda>p. resolveNode maxDepth rt p True (depth + 1))
                    followSymlinks [] (segments r) ([], rt)))"
  by pat_completeness auto
termination
  by (relation "measure (\<lambda>(maxDepth, rt, inputPath, followSymlinks, depth). Suc maxDepth - depth)")
    auto

declare resolveNode.simps [simp del]

text \<open>\<open>this.resolveNode(path, follow)\<close> with the default \<open>depth = 0\<close>.\<close>

definition resolve :: "VirtualFileSystem \<Rightarrow> string \<Rightarrow> bool \<Rightarrow> error + noderef option" where
  "resolve vfs p followSymlinks = resolveNode (maxSymlinkDepth vfs) (root vfs) p followSymlinks 0"

section \<open>Operations on files and directories\<close>

text \<open>
  An operation takes the file system and returns its outcome together with the file
  system it leaves behind: \<open>Inl\<close> is the error the operation throws, and the file system
  returned with it holds whatever was changed before the throw. Reading does not change
  the tree, so the reading operations return an outcome only. Contents are passed as
  byte buffers; a string argument of the source is turned into its bytes by
  \<open>Buffer.from\<close> before it is stored.
\<close>

type_synonym 'a outcome = "(error + 'a) \<times> VirtualFileSystem"

definition getDirectory :: "VirtualFileSystem \<Rightarrow> string \<Rightarrow> error + noderef" where
  "getDirectory vfs dirPath =
     (case resolve vfs dirPath True of
        Inl e \<Rightarrow> Inl e
      | Inr None \<Rightarrow> Inl (DirectoryNotFoundError dirPath)
      | Inr (Some node) \<Rightarrow>
          if \<not> isDirectory (snd node) then Inl (NotADirectoryError dirPath) else Inr node)"

definition getDirectoryOrNull :: "VirtualFileSystem \<Rightarrow> string \<Rightarrow> noderef option" where
  "getDirectoryOrNull vfs dirPath =
     (case getDirectory vfs dirPath of Inl e \<Rightarrow> None | Inr node \<Rightarrow> Some node)"

datatype event = Change | Add | Unlink | AddDir | UnlinkDir

text \<open>
  \<open>notifyWatchers\<close> resolves the path for its stats unless the event is a removal, and a
  throw of that resolution is a throw of the caller. The watchers themselves receive
  the event outside the file system and are not part of this state.
\<close>

definition notifyWatchers :: "VirtualFileSystem \<Rightarrow> string \<Rightarrow> event \<Rightarrow> error option" where
  "notifyWatchers vfs path ev =
     (if ev \<noteq> Unlink \<and> ev \<noteq> UnlinkDir then
        (case resolve vfs path True of Inl e \<Rightarrow> Some e | Inr _ \<Rightarrow> None)
      else None)"

definition readFile :: "VirtualFileSystem \<Rightarrow> string \<Rightarrow> error + buffer" where
  "readFile vfs filePath =
     (case resolve vfs filePath True of
        Inl e \<Rightarrow> Inl e
      | Inr None \<Rightarrow> Inl (FileNotFoundError filePath)
      | Inr (Some node) \<Rightarrow>
          (case snd node of
             VFSDirectory _ \<Rightarrow> Inl (NotAFileError filePath)
           | VFSFile content \<Rightarrow> Inr content
           | VFSSymlink _ \<Rightarrow> Inl (FileNotFoundError filePath)))"

text \<open>
  The loop of \<open>createDirectory\<close>: \<open>current\<close> is the location of the directory reached so
  far, \<open>currentPath\<close> the path text built so far, and \<open>rest = []\<close> after the current
  segment is the test \<open>i = segments.length - 1\<close>.
\<close>

fun createDirectory_loop ::
  "bool \<Rightarrow> VirtualFileSystem \<Rightarrow> location \<Rightarrow> string \<Rightarrow> string list \<Rightarrow> unit outcome"
where
  "createDirectory_loop recursive vfs current currentPath [] = (Inr (), vfs)"
| "createDirectory_loop recursive vfs current currentPath (segment # rest) =
     (let currentPath = currentPath @ slash # segment
      in case getChild (dir_at (root vfs) current) segment of
           Some child \<Rightarrow>
             (case child of
                VFSDirectory _ \<Rightarrow>
                  createDirectory_loop recursive vfs (current @ [segment]) currentPath rest
              | VFSSymlink _ \<Rightarrow>
                  (case resolve vfs currentPath True of
                     Inl e \<Rightarrow> (Inl e, vfs)
                   | Inr None \<Rightarrow> (Inl (NotADirectoryError currentPath), vfs)
                   | Inr (Some resolved) \<Rightarrow>
                       if isDirectory (snd resolved)
                       then createDirectory_loop recursive vfs (fst resolved) currentPath rest
                       else (Inl (NotADirectoryError currentPath), vfs))
              | VFSFile _ \<Rightarrow> (Inl (NotADirectoryError currentPath), vfs))
         | None \<Rightarrow>
             if \<not> recursive \<and> rest \<noteq> [] then (Inl (DirectoryNotFoundError currentPath), vfs)
             else
               let vfs' = vfs \<lparr> root :=
                      update_at current (addChild segment (VFSDirectory [])) (root vfs) \<rparr>
               in case notifyWatchers vfs' currentPath AddDir of
                    Some e \<Rightarrow> (Inl e, vfs')
                  | None \<Rightarrow>
                      createDirectory_loop recursive vfs' (current @ [segment]) currentPath rest)"

definition createDirectory :: "VirtualFileSystem \<Rightarrow> string \<Rightarrow> bool \<Rightarrow> unit outcome" where
  "createDirectory vfs dirPath recursive =
     (case resolvePath dirPath of
        Inl e \<Rightarrow> (Inl e, vfs)
      | Inr r \<Rightarrow>
          if fullPath r = ''/'' then (Inr (), vfs)
          else createDirectory_loop recursive vfs [] [] (segments r))"

definition writeFileInternal :: "VirtualFileSystem \<Rightarrow> string \<Rightarrow> buffer \<Rightarrow> unit outcome" where
  "writeFileInternal vfs filePath content =
     (case resolvePath filePath of
        Inl e \<Rightarrow> (Inl e, vfs)
      | Inr r \<Rightarrow>
          (case createDirectory vfs (parentPath r) True of
             (Inl e, vfs1) \<Rightarrow> (Inl e, vfs1)
           | (Inr _, vfs1) \<Rightarrow>
               (case getDirectory vfs1 (parentPath r) of
                  Inl e \<Rightarrow> (Inl e, vfs1)
                | Inr parent \<Rightarrow>
                    let written = (\<lambda>loc. vfs1 \<lparr> root :=
                                     update_at loc (\<lambda>_. VFSFile content) (root vfs1) \<rparr>);
                        notified = (\<lambda>vfs2 ev.
                                     case notifyWatchers vfs2 (fullPath r) ev of
                                       Some e \<Rightarrow> (Inl e, vfs2)
                                     | None \<Rightarrow> (Inr (), vfs2));
                        created = vfs1 \<lparr> root :=
                                     update_at (fst parent) (addChild (name r) (VFSFile content))
                                       (root vfs1) \<rparr>
                    in case getChild (snd parent) (name r) of
                         None \<Rightarrow> notified created Add
                       | Some (VFSDirectory _) \<Rightarrow> (Inl (NotAFileError filePath), vfs1)
                       | Some (VFSFile _) \<Rightarrow>
                           notified (written (fst parent @ [name r])) Change
                       | Some (VFSSymlink _) \<Rightarrow>
                           (case resolve vfs1 filePath True of
                              Inl e \<Rightarrow> (Inl e, vfs1)
                            | Inr (Some (loc, VFSFile _)) \<Rightarrow> notified (written loc) Change
                            | Inr _ \<Rightarrow> notified created Add))))"

definition deleteFile :: "VirtualFileSystem \<Rightarrow> string \<Rightarrow> unit outcome" where
  "deleteFile vfs filePath =
     (case resolvePath filePath of
        Inl e \<Rightarrow> (Inl e, vfs)
      | Inr r \<Rightarrow>
          (case getDirectoryOrNull vfs (parentPath r) of
             None \<Rightarrow> (Inl (FileNotFoundError (fullPath r)), vfs)
           | Some parent \<Rightarrow>
               (case getChild (snd parent) (name r) of
                  None \<Rightarrow> (Inl (FileNotFoundError (fullPath r)), vfs)
                | Some node \<Rightarrow>
                    if isDirectory node then (Inl (NotAFileError (fullPath r)), vfs)
                    else (Inr (), vfs \<lparr> root :=
                            update_at (fst parent) (removeChild (name r)) (root vfs) \<rparr>))))"

text \<open>
  \<open>writeFile\<close> with its \<open>tempSuffix\<close> option, \<open>copyFile\<close> and \<open>moveFile\<close> call one another, so
  they are given in the order of their calls: the plain write first, then copy and move
  on top of it, then the write with the option.
\<close>

definition copyFile :: "VirtualFileSystem \<Rightarrow> string \<Rightarrow> string \<Rightarrow> unit outcome" where
  "copyFile vfs srcPath destPath =
     (case readFile vfs srcPath of
        Inl e \<Rightarrow> (Inl e, vfs)
      | Inr content \<Rightarrow> writeFileInternal vfs destPath content)"

definition moveFile :: "VirtualFileSystem \<Rightarrow> string \<Rightarrow> string \<Rightarrow> unit outcome" where
  "moveFile vfs srcPath destPath =
     (case copyFile vfs srcPath destPath of
        (Inl e, vfs1) \<Rightarrow> (Inl e, vfs1)
      | (Inr _, vfs1) \<Rightarrow> deleteFile vfs1 srcPath)"

text \<open>
  \<open>tempSuffix\<close> is \<open>None\<close> when the option is absent; an empty suffix is falsy in the
  source and is treated as absent.
\<close>

definition writeFile ::
  "VirtualFileSystem \<Rightarrow> string \<Rightarrow> buffer \<Rightarrow> string option \<Rightarrow> unit outcome"
where
  "writeFile vfs filePath content tempSuffix =
     (case tempSuffix of
        Some suffix \<Rightarrow>
          if suffix \<noteq> [] then
            (let tempPath = filePath @ suffix
             in case writeFileInternal vfs tempPath content of
                  (Inl e, vfs1) \<Rightarrow> (Inl e, vfs1)
                | (Inr _, vfs1) \<Rightarrow> moveFile vfs1 tempPath filePath)
          else writeFileInternal vfs filePath content
      | None \<Rightarrow> writeFileInternal vfs filePath content)"

fun append_content :: "buffer \<Rightarrow> VFSNode \<Rightarrow> VFSNode" where
  "append_content content (VFSFile old) = VFSFile (old @ content)"
| "append_content content other = other"

definition appendFile :: "VirtualFileSystem \<Rightarrow> string \<Rightarrow> buffer \<Rightarrow> unit outcome" where
  "appendFile vfs filePath content =
     (case resolve vfs filePath True of
        Inl e \<Rightarrow> (Inl e, vfs)
      | Inr None \<Rightarrow> writeFile vfs filePath content None
      | Inr (Some node) \<Rightarrow>
          if \<not> isFile (snd node) then (Inl (NotAFileError filePath), vfs)
          else (Inr (), vfs \<lparr> root :=
                  update_at (fst node) (append_content content) (root vfs) \<rparr>))"

text \<open>\<open>deleteDirectory\<close>; the root is emptied child by child and never removed.\<close>

definition deleteDirectory :: "VirtualFileSystem \<Rightarrow> string \<Rightarrow> bool \<Rightarrow> unit outcome" where
  "deleteDirectory vfs dirPath recursive =
     (case resolvePath dirPath of
        Inl e \<Rightarrow> (Inl e, vfs)
      | Inr r \<Rightarrow>
          if isRoot r then
            (if \<not> recursive then (Inl (DirectoryNotEmptyError ''/''), vfs)
             else (Inr (), vfs \<lparr> root :=
                     foldl (\<lambda>rt childName. removeChild childName rt) (root vfs)
                       (map fst (getChildren (root vfs))) \<rparr>))
          else
            (case getDirectory vfs (parentPath r) of
               Inl e \<Rightarrow> (Inl e, vfs)
             | Inr parent \<Rightarrow>
                 (case getChild (snd parent) (name r) of
                    None \<Rightarrow> (Inl (DirectoryNotFoundError (fullPath r)), vfs)
                  | Some node \<Rightarrow>
                      if \<not> isDirectory node then (Inl (NotADirectoryError (fullPath r)), vfs)
                      else if \<not> recursive \<and> getChildren node \<noteq> []
                        then (Inl (DirectoryNotEmptyError (fullPath r)), vfs)
                      else (Inr (), vfs \<lparr> root :=
                              update_at (fst parent) (removeChild (name r)) (root vfs) \<rparr>))))"

text \<open>\<open>exists\<close> catches every throw of the resolution and answers \<open>false\<close>.\<close>

definition exists :: "VirtualFileSystem \<Rightarrow> string \<Rightarrow> bool" where
  "exists vfs targetPath =
     (case resolve vfs targetPath False of
        Inl e \<Rightarrow> False
      | Inr None \<Rightarrow> False
      | Inr (Some node) \<Rightarrow> True)"

definition createSymlink :: "VirtualFileSystem \<Rightarrow> string \<Rightarrow> string \<Rightarrow> unit outcome" where
  "createSymlink vfs target linkPath =
     (case resolvePath linkPath of
        Inl e \<Rightarrow> (Inl e, vfs)
      | Inr r \<Rightarrow>
          (case createDirectory vfs (parentPath r) True of
             (Inl e, vfs1) \<Rightarrow> (Inl e, vfs1)
           | (Inr _, vfs1) \<Rightarrow>
               (case getDirectory vfs1 (parentPath r) of
                  Inl e \<Rightarrow> (Inl e, vfs1)
                | Inr parent \<Rightarrow>
                    if getChild (snd parent) (name r) \<noteq> None
                    then (Inl (FileAlreadyExistsError linkPath), vfs1)
                    else (Inr (), vfs1 \<lparr> root :=
                            update_at (fst parent) (addChild (name r) (VFSSymlink target))
                              (root vfs1) \<rparr>))))"

definition readSymlink :: "VirtualFileSystem \<Rightarrow> string \<Rightarrow> error + string" where
  "readSymlink vfs linkPath =
     (case resolve vfs linkPath False of
        Inl e \<Rightarrow> Inl e
      | Inr None \<Rightarrow> Inl (FileNotFoundError linkPath)
      | Inr (Some node) \<Rightarrow>
          (case snd node of
             VFSSymlink target \<Rightarrow> Inr target
           | _ \<Rightarrow> Inl (NotASymlinkError linkPath)))"

section \<open>Glob\<close>

text \<open>
  \<open>patternToRegex\<close> builds the source text of a regular expression by five textual
  replacements, in the order of the source. \<open>replace_all\<close> is \<open>replace\<close> with a literal
  global pattern: matches are taken from left to right and do not overlap.
\<close>

fun replace_all_from :: "string \<Rightarrow> string \<Rightarrow> nat \<Rightarrow> string \<Rightarrow> string" where
  "replace_all_from pat rep skip [] = []"
| "replace_all_from pat rep (Suc k) (x # xs) = replace_all_from pat rep k xs"
| "replace_all_from pat rep 0 (x # xs) =
     (if pat \<noteq> [] \<and> startsWith (x # xs) pat
      then rep @ replace_all_from pat rep (length pat - 1) xs
      else x # replace_all_from pat rep 0 xs)"

definition replace_all :: "string \<Rightarrow> string \<Rightarrow> string \<Rightarrow> string" where
  "replace_all pat rep s = replace_all_from pat rep 0 s"

definition regex_special :: "char \<Rightarrow> bool" where
  "regex_special c = (c \<in> set ''.+^${}()|[]'' \<or> c = backslash)"

definition escape_special :: "string \<Rightarrow> string" where
  "escape_special s = concat (map (\<lambda>c. if regex_special c then [backslash, c] else [c]) s)"

text \<open>The text between the anchors \<open>^\<close> and \<open>$\<close> of the expression that is built.\<close>

definition patternToRegex :: "string \<Rightarrow> string" where
  "patternToRegex pattern =
     replace_all ''<<<GLOBSTAR>>>'' ''.*''
       (replace_all ''?'' ''[^/]''
         (replace_all ''*'' ''[^/]*''
           (replace_all ''**'' ''<<<GLOBSTAR>>>''
             (escape_special pattern))))"

text \<open>
  The expressions built above consist of escaped characters, plain characters and the
  three inserted pieces \<open>.*\<close>, \<open>[^/]*\<close> and \<open>[^/]\<close>; they are read into tokens and matched
  against the whole text, which is what \<open>test\<close> does for an expression between \<open>^\<close> and
  \<open>$\<close>. The period of a regular expression matches every code unit but the line ends.
\<close>

datatype regex_token = Literal char | AnyChars | NoSlashChars | NoSlashChar

function parse_regex :: "string \<Rightarrow> regex_token list" where
  "parse_regex [] = []"
| "parse_regex (c # cs) =
     (if c = backslash then
        (case cs of [] \<Rightarrow> [Literal c] | d # ds \<Rightarrow> Literal d # parse_regex ds)
      else if startsWith (c # cs) ''.*'' then AnyChars # parse_regex (drop 1 cs)
      else if startsWith (c # cs) ''[^/]*'' then NoSlashChars # parse_regex (drop 4 cs)
      else if startsWith (c # cs) ''[^/]'' then NoSlashChar # parse_regex (drop 3 cs)
      else Literal c # parse_regex cs)"
  by pat_completeness auto
termination
  by (relation "measure length") auto

definition period_matches :: "char \<Rightarrow> bool" where
  "period_matches c = (c \<noteq> CHR 0x0A \<and> c \<noteq> CHR 0x0D)"

fun matches :: "regex_token list \<Rightarrow> string \<Rightarrow> bool" where
  "matches [] s = (s = [])"
| "matches (Literal c # ts) [] = False"
| "matches (Literal c # ts) (x # xs) = (x = c \<and> matches ts xs)"
| "matches (NoSlashChar # ts) [] = False"
| "matches (NoSlashChar # ts) (x # xs) = (x \<noteq> slash \<and> matches ts xs)"
| "matches (NoSlashChars # ts) [] = matches ts []"
| "matches (NoSlashChars # ts) (x # xs) =
     (matches ts (x # xs) \<or> (x \<noteq> slash \<and> matches (NoSlashChars # ts) xs))"
| "matches (AnyChars # ts) [] = matches ts []"
| "matches (AnyChars # ts) (x # xs) =
     (matches ts (x # xs) \<or> (period_matches x \<and> matches (AnyChars # ts) xs))"

definition regex_test :: "string \<Rightarrow> string \<Rightarrow> bool" where
  "regex_test regex s = matches (parse_regex regex) s"

definition matchesIgnore :: "string \<Rightarrow> string list \<Rightarrow> bool" where
  "matchesIgnore path ignorePatterns =
     (\<exists>pattern \<in> set ignorePatterns.
        regex_test (patternToRegex pattern) path
        \<or> regex_test (patternToRegex pattern) (basename path))"

record GlobOptions =
  cwd :: "string option"
  ignore :: "string list"
  dot :: bool
  absolute :: bool
  onlyFiles :: bool
  onlyDirectories :: bool
  followSymlinks :: bool
  maxDepth :: "nat option"

text \<open>The options of a call that passes none; \<open>maxDepth = None\<close> is \<open>Infinity\<close>.\<close>

definition defaultGlobOptions :: GlobOptions where
  "defaultGlobOptions =
     \<lparr> cwd = None, ignore = [], dot = False, absolute = True, onlyFiles = False,
       onlyDirectories = False, followSymlinks = True, maxDepth = None \<rparr>"

definition glob_cwd :: "GlobOptions \<Rightarrow> string" where
  "glob_cwd options =
     (case cwd options of
        Some c \<Rightarrow> if c \<noteq> [] then normalizePath c else ''/''
      | None \<Rightarrow> ''/'')"

text \<open>\<open>nodePath.slice(cwd.length + 1) || node.name\<close>.\<close>

definition relativePath :: "string \<Rightarrow> string \<Rightarrow> string \<Rightarrow> string" where
  "relativePath cwdPath nodePath nodeName =
     (let sliced = drop (length cwdPath + 1) nodePath
      in if sliced = [] then nodeName else sliced)"

text \<open>
  \<open>traverse\<close> follows links into directories, and a link to a directory above itself makes
  the source recurse without end when no \<open>maxDepth\<close> stops it. The model counts the
  nesting of \<open>traverse\<close> calls in \<open>fuel\<close> and returns \<open>None\<close> when the fuel is used up; every
  other outcome is \<open>Some\<close> of the error thrown or of the paths pushed, in the order pushed.
\<close>

fun traverse ::
  "nat \<Rightarrow> VirtualFileSystem \<Rightarrow> GlobOptions \<Rightarrow> string \<Rightarrow> VFSNode \<Rightarrow> string \<Rightarrow> nat
     \<Rightarrow> (error + string list) option"
  and traverse_children ::
  "nat \<Rightarrow> VirtualFileSystem \<Rightarrow> GlobOptions \<Rightarrow> string \<Rightarrow> children \<Rightarrow> string \<Rightarrow> nat
     \<Rightarrow> (error + string list) option"
where
  "traverse 0 vfs options regex dir currentPath depth = None"
| "traverse (Suc fuel) vfs options regex dir currentPath depth =
     (if (case maxDepth options of Some m \<Rightarrow> depth > m | None \<Rightarrow> False) then Some (Inr [])
      else traverse_children fuel vfs options regex (getChildren dir) currentPath depth)"
| "traverse_children fuel vfs options regex [] currentPath depth = Some (Inr [])"
| "traverse_children fuel vfs options regex ((nodeName, node) # rest) currentPath depth =
     (let nodePath = (if currentPath = ''/'' then slash # nodeName
                      else currentPath @ slash # nodeName);
          relPath = relativePath (glob_cwd options) nodePath nodeName;
          continue = traverse_children fuel vfs options regex rest currentPath depth
      in if \<not> dot options \<and> startsWith nodeName ''.'' then continue
         else if matchesIgnore nodePath (ignore options) then continue
         else
           (case (if isSymlink node \<and> followSymlinks options
                  then (case resolve vfs nodePath True of
                          Inl e \<Rightarrow> Inl e
                        | Inr None \<Rightarrow> Inr None
                        | Inr (Some resolved) \<Rightarrow> Inr (Some (snd resolved)))
                  else Inr (Some node)) of
              Inl e \<Rightarrow> Some (Inl e)
            | Inr None \<Rightarrow> continue
            | Inr (Some effectiveNode) \<Rightarrow>
                let shouldInclude =
                      ((\<not> onlyFiles options \<and> \<not> onlyDirectories options)
                       \<or> (onlyFiles options \<and> isFile effectiveNode)
                       \<or> (onlyDirectories options \<and> isDirectory effectiveNode));
                    pushed = (if regex_test regex relPath \<and> shouldInclude
                              then [if absolute options then nodePath else relPath]
                              else [])
                in (case (if isDirectory effectiveNode
                          then traverse fuel vfs options regex effectiveNode nodePath (depth + 1)
                          else Some (Inr [])) of
                      None \<Rightarrow> None
                    | Some (Inl e) \<Rightarrow> Some (Inl e)
                    | Some (Inr below) \<Rightarrow>
                        (case continue of
                           None \<Rightarrow> None
                         | Some (Inl e) \<Rightarrow> Some (Inl e)
                         | Some (Inr others) \<Rightarrow> Some (Inr (pushed @ below @ others))))))"

definition glob ::
  "nat \<Rightarrow> VirtualFileSystem \<Rightarrow> string \<Rightarrow> GlobOptions \<Rightarrow> (error + string list) option"
where
  "glob fuel vfs pattern options =
     (case getDirectoryOrNull vfs (glob_cwd options) of
        None \<Rightarrow> Some (Inr [])
      | Some startDir \<Rightarrow>
          (case traverse fuel vfs options (patternToRegex pattern) (snd startDir)
                  (glob_cwd options) 0 of
             None \<Rightarrow> None
           | Some (Inl e) \<Rightarrow> Some (Inl e)
           | Some (Inr results) \<Rightarrow> Some (Inr (sort results))))"

section \<open>Snapshots and diff\<close>

text \<open>
  \<open>clone\<close> builds a new node for every node below the one cloned. In this tree of
  values the copy is told from the original by where it is kept: the live tree in
  \<^const>\<open>root\<close>, the copy under its id in \<^const>\<open>snapshots\<close>. The object store further
  down shows that the two share no object.
\<close>

fun clone :: "VFSNode \<Rightarrow> VFSNode" and clone_children :: "children \<Rightarrow> children" where
  "clone (VFSFile content) = VFSFile content"
| "clone (VFSSymlink target) = VFSSymlink target"
| "clone (VFSDirectory cs) = VFSDirectory (clone_children cs)"
| "clone_children [] = []"
| "clone_children ((nm, node) # cs) = (nm, clone node) # clone_children cs"

definition digit_char :: "nat \<Rightarrow> char" where
  "digit_char d = char_of (48 + d)"

function show_nat :: "nat \<Rightarrow> string" where
  "show_nat n = (if n < 10 then [digit_char n] else show_nat (n div 10) @ [digit_char (n mod 10)])"
  by pat_completeness auto
termination
  by (relation "measure id") auto

text \<open>
  \<open>createSnapshot\<close> returns the new id; the counts it also records in the snapshot's
  info are not read by any other operation and are left out.
\<close>

definition createSnapshot :: "VirtualFileSystem \<Rightarrow> string \<times> VirtualFileSystem" where
  "createSnapshot vfs =
     (let counter = snapshotCounter vfs + 1;
          snapshotId = ''snapshot-'' @ show_nat counter;
          clonedRoot = clone (root vfs)
      in (snapshotId, vfs \<lparr> snapshotCounter := counter,
                    snapshots := map_set snapshotId clonedRoot (snapshots vfs) \<rparr>))"

definition restoreSnapshot :: "VirtualFileSystem \<Rightarrow> string \<Rightarrow> unit outcome" where
  "restoreSnapshot vfs snapshotId =
     (case map_of (snapshots vfs) snapshotId of
        None \<Rightarrow> (Inl (SnapshotNotFound snapshotId), vfs)
      | Some snapshot \<Rightarrow>
          let emptied = foldl (\<lambda>rt childName. removeChild childName rt) (root vfs)
                          (map fst (getChildren (root vfs)));
              cloned = clone snapshot
          in (Inr (), vfs \<lparr> root :=
                foldl (\<lambda>rt (nm, node). addChild nm node rt) emptied (getChildren cloned) \<rparr>))"

datatype DiffType = Added | Modified | Deleted

text \<open>A diff record: type, path, old content and new content; the stats are left out.\<close>

datatype FileDiff = FileDiff DiffType string "buffer option" "buffer option"

definition child_path :: "string \<Rightarrow> string \<Rightarrow> string" where
  "child_path basePath nm = (if basePath \<noteq> [] then basePath @ slash # nm else slash # nm)"

text \<open>
  \<open>computeDiff\<close>: \<open>from\<close> is the list of children of the directory passed as \<open>from\<close>, empty
  when \<open>undefined\<close> is passed. The first loop runs over the children of \<open>to\<close> and recurses
  into the directories among them; the second loop runs over the children of \<open>from\<close>.
\<close>

fun computeDiff :: "children \<Rightarrow> children \<Rightarrow> string \<Rightarrow> FileDiff list"
  and added_modified :: "children \<Rightarrow> children \<Rightarrow> string \<Rightarrow> FileDiff list"
where
  "computeDiff fromChildren toChildren basePath =
     added_modified fromChildren toChildren basePath
     @ concat (map (\<lambda>(nm, fromNode).
         if map_of toChildren nm = None then
           (case fromNode of
              VFSFile content \<Rightarrow> [FileDiff Deleted (child_path basePath nm) (Some content) None]
            | _ \<Rightarrow> [])
         else []) fromChildren)"
| "added_modified fromChildren [] basePath = []"
| "added_modified fromChildren ((nm, toNode) # rest) basePath =
     (let path = child_path basePath nm;
          fromNode = map_of fromChildren nm
      in (case fromNode of
            None \<Rightarrow>
              (case toNode of
                 VFSFile content \<Rightarrow> [FileDiff Added path None (Some content)]
               | _ \<Rightarrow> [])
          | Some (VFSFile fromContent) \<Rightarrow>
              (case toNode of
                 VFSFile toContent \<Rightarrow>
                   if fromContent \<noteq> toContent
                   then [FileDiff Modified path (Some fromContent) (Some toContent)]
                   else []
               | _ \<Rightarrow> [])
          | Some _ \<Rightarrow> [])
         @ (case toNode of
              VFSDirectory toBelow \<Rightarrow>
                computeDiff
                  (case fromNode of Some (VFSDirectory fromBelow) \<Rightarrow> fromBelow | _ \<Rightarrow> [])
                  toBelow path
            | _ \<Rightarrow> [])
         @ added_modified fromChildren rest basePath)"

text \<open>An id is given when it is a non-empty string; the empty string is falsy.\<close>

definition given :: "string option \<Rightarrow> bool" where
  "given snapshotId = (case snapshotId of Some s \<Rightarrow> s \<noteq> [] | None \<Rightarrow> False)"

definition id_text :: "string option \<Rightarrow> string" where
  "id_text snapshotId = (case snapshotId of Some s \<Rightarrow> s | None \<Rightarrow> [])"

definition diff :: "VirtualFileSystem \<Rightarrow> string option \<Rightarrow> string option \<Rightarrow> error + FileDiff list" where
  "diff vfs fromId toId =
     (let fromRoot = (if given fromId then map_of (snapshots vfs) (id_text fromId) else None);
          toRoot = (if given toId then map_of (snapshots vfs) (id_text toId) else Some (root vfs))
      in if given fromId \<and> fromRoot = None then Inl (SnapshotNotFound (id_text fromId))
         else if given toId \<and> toRoot = None then Inl (SnapshotNotFound (id_text toId))
         else Inr (computeDiff
                     (case fromRoot of Some f \<Rightarrow> getChildren f | None \<Rightarrow> [])
                     (case toRoot of Some t \<Rightarrow> getChildren t | None \<Rightarrow> []) []))"

section \<open>The object store\<close>

text \<open>
  Whether a snapshot can be changed through the live tree depends on which node objects
  the two share, so here the node objects live in a store: an object sits at an address,
  a directory object holds the addresses of its children, \<open>new\<close> takes the next unused
  address, and a method changes the object at the address it is called on. Every object
  carries the stats of \<open>VFSNode\<close>; the clock read by \<open>new Date()\<close> is passed to a method as
  \<open>now\<close>. As above, the name of a node is the key of its entry.
\<close>

type_synonym address = nat

record stats =
  mode :: nat
  uid :: nat
  gid :: nat
  createdTime :: nat
  modifiedTime :: nat
  accessedTime :: nat

datatype object =
    FileObject stats buffer
  | DirectoryObject stats "(string \<times> address) list"
  | SymlinkObject stats string

record object_store =
  cells :: "address \<Rightarrow> object option"
  fresh :: address
  rootAddress :: address
  snapshotRoots :: "(string \<times> address) list"
  counter :: nat

fun entries_of :: "object \<Rightarrow> (string \<times> address) list" where
  "entries_of (DirectoryObject s entries) = entries"
| "entries_of other = []"

definition new_object :: "object \<Rightarrow> object_store \<Rightarrow> address \<times> object_store" where
  "new_object obj h = (fresh h, h \<lparr> cells := (cells h)(fresh h \<mapsto> obj), fresh := Suc (fresh h) \<rparr>)"

text \<open>The methods of the node classes that change the object they are called on.\<close>

definition touched :: "nat \<Rightarrow> stats \<Rightarrow> stats" where
  "touched now s = s \<lparr> accessedTime := now \<rparr>"

definition modified :: "nat \<Rightarrow> stats \<Rightarrow> stats" where
  "modified now s = s \<lparr> modifiedTime := now, accessedTime := now \<rparr>"

datatype mutator =
    Touch
  | MarkModified
  | Write buffer
  | Append buffer
  | Truncate nat
  | SetTarget string
  | RemoveChild string

fun call :: "mutator \<Rightarrow> nat \<Rightarrow> object \<Rightarrow> object" where
  "call Touch now (FileObject s content) = FileObject (touched now s) content"
| "call Touch now (DirectoryObject s entries) = DirectoryObject (touched now s) entries"
| "call Touch now (SymlinkObject s target) = SymlinkObject (touched now s) target"
| "call MarkModified now (FileObject s content) = FileObject (modified now s) content"
| "call MarkModified now (DirectoryObject s entries) = DirectoryObject (modified now s) entries"
| "call MarkModified now (SymlinkObject s target) = SymlinkObject (modified now s) target"
| "call (Write data) now (FileObject s content) = FileObject (modified now s) data"
| "call (Append data) now (FileObject s content) = FileObject (modified now s) (content @ data)"
| "call (Truncate n) now (FileObject s content) =
     (if n \<ge> length content then FileObject s content
      else FileObject (modified now s) (take n content))"
| "call (SetTarget target) now (SymlinkObject s old) = SymlinkObject (modified now s) target"
| "call (RemoveChild nm) now (DirectoryObject s entries) =
     (if map_of entries nm = None then DirectoryObject s entries
      else DirectoryObject (modified now s) (map_delete nm entries))"
| "call m now obj = obj"

text \<open>\<open>addChild\<close>, with the key under which the node is stored and the address of the node.\<close>

fun addChild_object :: "string \<Rightarrow> address \<Rightarrow> nat \<Rightarrow> object \<Rightarrow> object" where
  "addChild_object nm a now (DirectoryObject s entries) =
     DirectoryObject (modified now s) (map_set nm a entries)"
| "addChild_object nm a now other = other"

definition update_cell :: "address \<Rightarrow> (object \<Rightarrow> object) \<Rightarrow> object_store \<Rightarrow> object_store" where
  "update_cell a f h =
     (case cells h a of
        None \<Rightarrow> h
      | Some obj \<Rightarrow> h \<lparr> cells := (cells h)(a \<mapsto> f obj) \<rparr>)"

text \<open>
  \<open>clone\<close>: a file or a link is copied into one new object with the same stats and
  content; a directory is copied into a new directory object, made first, whose
  entries are the clones of the entries, made in order. The keys of a \<open>Map\<close> are
  distinct, so setting the entries one by one lists them in their order. Cloning
  follows addresses, so the model counts the nesting in \<open>fuel\<close> and returns \<open>None\<close> when
  the fuel is used up or an address holds no object.
\<close>

fun clone_object :: "nat \<Rightarrow> object_store \<Rightarrow> address \<Rightarrow> (address \<times> object_store) option"
  and clone_entries ::
    "nat \<Rightarrow> object_store \<Rightarrow> (string \<times> address) list
       \<Rightarrow> ((string \<times> address) list \<times> object_store) option"
where
  "clone_object 0 h a = None"
| "clone_object (Suc fuel) h a =
     (case cells h a of
        None \<Rightarrow> None
      | Some (FileObject s content) \<Rightarrow> Some (new_object (FileObject s content) h)
      | Some (SymlinkObject s target) \<Rightarrow> Some (new_object (SymlinkObject s target) h)
      | Some (DirectoryObject s entries) \<Rightarrow>
          (case clone_entries fuel (snd (new_object (DirectoryObject s []) h)) entries of
             None \<Rightarrow> None
           | Some (cloned, h2) \<Rightarrow>
               Some (fresh h, h2 \<lparr> cells := (cells h2)(fresh h \<mapsto> DirectoryObject s cloned) \<rparr>)))"
| "clone_entries fuel h [] = Some ([], h)"
| "clone_entries fuel h ((nm, a) # rest) =
     (case clone_object fuel h a of
        None \<Rightarrow> None
      | Some (a', h1) \<Rightarrow>
          (case clone_entries fuel h1 rest of
             None \<Rightarrow> None
           | Some (cloned, h2) \<Rightarrow> Some ((nm, a') # cloned, h2)))"

text \<open>
  \<open>countNodes\<close>, the pass over the live tree that \<open>createSnapshot\<close> makes for the snapshot
  info: a file is counted, a directory is counted and its children, read with
  \<open>getChildren()\<close>, are visited in order, a link is passed over. \<open>getChildren()\<close> sets the
  access time of the directory it is called on, so the pass changes the store; the
  counts go into the snapshot info, which the store does not hold. As for \<open>clone\<close>, the
  nesting is counted in \<open>fuel\<close>.
\<close>

fun countNodes_object :: "nat \<Rightarrow> nat \<Rightarrow> object_store \<Rightarrow> address \<Rightarrow> object_store option"
  and countNodes_entries ::
    "nat \<Rightarrow> nat \<Rightarrow> object_store \<Rightarrow> (string \<times> address) list \<Rightarrow> object_store option"
where
  "countNodes_object 0 now h a = None"
| "countNodes_object (Suc fuel) now h a =
     (case cells h a of
        None \<Rightarrow> None
      | Some (FileObject s content) \<Rightarrow> Some h
      | Some (SymlinkObject s target) \<Rightarrow> Some h
      | Some (DirectoryObject s entries) \<Rightarrow>
          countNodes_entries fuel now (update_cell a (call Touch now) h) entries)"
| "countNodes_entries fuel now h [] = Some h"
| "countNodes_entries fuel now h ((nm, a) # rest) =
     (case countNodes_object fuel now h a of
        None \<Rightarrow> None
      | Some h1 \<Rightarrow> countNodes_entries fuel now h1 rest)"

text \<open>
  \<open>createSnapshot\<close> and \<open>restoreSnapshot\<close> on the store. \<open>createSnapshot\<close> clones the root,
  counts the nodes of the live tree and then stores the clone under the new id.
\<close>

definition store_createSnapshot ::
  "nat \<Rightarrow> nat \<Rightarrow> object_store \<Rightarrow> (string \<times> object_store) option"
where
  "store_createSnapshot fuel now h =
     (let n = counter h + 1;
          snapshotId = ''snapshot-'' @ show_nat n
      in case clone_object fuel h (rootAddress h) of
           None \<Rightarrow> None
         | Some (clonedRoot, h1) \<Rightarrow>
             (case countNodes_object fuel now h1 (rootAddress h1) of
                None \<Rightarrow> None
              | Some h2 \<Rightarrow>
                  Some (snapshotId,
                        h2 \<lparr> counter := n,
                             snapshotRoots := map_set snapshotId clonedRoot (snapshotRoots h2) \<rparr>)))"

definition store_restoreSnapshot ::
  "nat \<Rightarrow> nat \<Rightarrow> object_store \<Rightarrow> string \<Rightarrow> ((error + unit) \<times> object_store) option"
where
  "store_restoreSnapshot fuel now h snapshotId =
     (case map_of (snapshotRoots h) snapshotId of
        None \<Rightarrow> Some (Inl (SnapshotNotFound snapshotId), h)
      | Some snapshotRoot \<Rightarrow>
          let childNames = (case cells h (rootAddress h) of
                              Some obj \<Rightarrow> map fst (entries_of obj) | None \<Rightarrow> []);
              emptied = foldl (\<lambda>h' nm. update_cell (rootAddress h) (call (RemoveChild nm) now) h')
                          h childNames
          in case clone_object fuel emptied snapshotRoot of
               None \<Rightarrow> None
             | Some (cloned, h2) \<Rightarrow>
                 Some (Inr (),
                       foldl (\<lambda>h' (nm, a). update_cell (rootAddress h) (addChild_object nm a now) h')
                         h2
                         (case cells h2 cloned of
                            Some obj \<Rightarrow> entries_of obj | None \<Rightarrow> [])))"

text \<open>
  The objects reached from an address through the entries of directories.
\<close>

inductive_set reach :: "(address \<Rightarrow> object option) \<Rightarrow> address \<Rightarrow> address set"
  for cs :: "address \<Rightarrow> object option" and a :: address
where
  start: "a \<in> reach cs a"
| child: "b \<in> reach cs a \<Longrightarrow> cs b = Some obj \<Longrightarrow> (nm, c) \<in> set (entries_of obj) \<Longrightarrow> c \<in> reach cs a"

text \<open>
  A change of the live tree is a call of one of the methods above on an object reached
  from the root, or \<open>addChild\<close> of a node made by \<open>new\<close> on a directory reached from the
  root: every operation of the file system finds the nodes it changes by walking from
  \<open>this.root\<close>, and the nodes it adds are new files, new empty directories and new links.
\<close>

fun childless :: "object \<Rightarrow> bool" where
  "childless (DirectoryObject s entries) = (entries = [])"
| "childless other = True"

inductive live_step :: "object_store \<Rightarrow> object_store \<Rightarrow> bool" where
  mutator_call:
    "a \<in> reach (cells h) (rootAddress h) \<Longrightarrow> live_step h (update_cell a (call m now) h)"
| add_new_child:
    "d \<in> reach (cells h) (rootAddress h) \<Longrightarrow> childless obj
       \<Longrightarrow> live_step h (update_cell d (addChild_object nm (fresh h) now) (snd (new_object obj h)))"

text \<open>A step of the file system: a change of the live tree or a restore of a snapshot.\<close>

inductive step :: "object_store \<Rightarrow> object_store \<Rightarrow> bool" where
  live: "live_step h h' \<Longrightarrow> step h h'"
| restore: "store_restoreSnapshot fuel now h snapshotId = Some (Inr (), h') \<Longrightarrow> step h h'"

text \<open>
  The value of the objects reached from an address: a tree of stats, contents and
  targets. \<open>represents cs a t\<close> says that the objects at and below \<open>a\<close> are the tree \<open>t\<close>.
\<close>

datatype tree =
    FileTree stats buffer
  | DirectoryTree stats "(string \<times> tree) list"
  | SymlinkTree stats string

fun represents :: "(address \<Rightarrow> object option) \<Rightarrow> address \<Rightarrow> tree \<Rightarrow> bool"
  and represents_entries ::
    "(address \<Rightarrow> object option) \<Rightarrow> (string \<times> address) list \<Rightarrow> (string \<times> tree) list \<Rightarrow> bool"
where
  "represents cs a (FileTree s content) = (cs a = Some (FileObject s content))"
| "represents cs a (SymlinkTree s target) = (cs a = Some (SymlinkObject s target))"
| "represents cs a (DirectoryTree s below) =
     (case cs a of
        Some (DirectoryObject s' entries) \<Rightarrow> s' = s \<and> represents_entries cs entries below
      | _ \<Rightarrow> False)"
| "represents_entries cs [] [] = True"
| "represents_entries cs ((nm, a) # entries) ((nm', t) # below) =
     (nm = nm' \<and> represents cs a t \<and> represents_entries cs entries below)"
| "represents_entries cs [] (x # below) = False"
| "represents_entries cs (e # entries) [] = False"

fun height :: "tree \<Rightarrow> nat" and height_entries :: "(string \<times> tree) list \<Rightarrow> nat" where
  "height (FileTree s content) = 1"
| "height (SymlinkTree s target) = 1"
| "height (DirectoryTree s below) = Suc (height_entries below)"
| "height_entries [] = 0"
| "height_entries ((nm, t) # below) = max (height t) (height_entries below)"

text \<open>
  A store is closed when every address it uses is below \<^const>\<open>fresh\<close>, so that \<open>new\<close>
  returns an address no object refers to.
\<close>

definition closed :: "object_store \<Rightarrow> bool" where
  "closed h =
     (rootAddress h < fresh h
      \<and> (\<forall>a obj. cells h a = Some obj \<longrightarrow>
            a < fresh h \<and> (\<forall>(nm, c) \<in> set (entries_of obj). c < fresh h)))"

section \<open>Notions used in the proofs\<close>

text \<open>A text without two separators in a row.\<close>

fun no_double :: "string \<Rightarrow> bool" where
  "no_double (a # b # cs) = (\<not> (a = slash \<and> b = slash) \<and> no_double (b # cs))"
| "no_double cs = True"

text \<open>A part that \<open>normalizePath\<close> pushes and never pops on its own account.\<close>

definition plain :: "string \<Rightarrow> bool" where
  "plain p = (p \<noteq> [] \<and> p \<noteq> ''.'' \<and> p \<noteq> ''..'' \<and> slash \<notin> set p \<and> backslash \<notin> set p)"

text \<open>
  The shape of the stack of \<open>normalizePath\<close> at every round: some \<open>..\<close> parts, none of
  them for an absolute path, and plain parts above them.
\<close>

definition stack_ok :: "bool \<Rightarrow> string list \<Rightarrow> bool" where
  "stack_ok isAbsolute st =
     (\<exists>k rest. st = replicate k ''..'' @ rest \<and> (\<forall>p \<in> set rest. plain p) \<and> (isAbsolute \<longrightarrow> k = 0))"

text \<open>
  The paths that a resolution turns to: \<open>walk_calls\<close> runs the loop of \<open>resolveNode\<close> and
  lists, in order, the target paths on which the loop calls \<open>rec\<close>. \<open>follows_to m rt p\<close> is
  that list for the path text \<open>p\<close>, the nested resolutions being bounded by \<open>m\<close>, and
  \<open>follows m rt\<close> relates a path to each path it turns to. The target paths are the ones
  the code computes (\<open>symlinkTargetPath\<close>); a set of links forms a cycle for the code when
  this relation leads from a path back to it.
\<close>

fun walk_calls ::
  "(string \<Rightarrow> error + noderef option) \<Rightarrow> bool \<Rightarrow> string list \<Rightarrow> string list \<Rightarrow> noderef
     \<Rightarrow> string list"
where
  "walk_calls rec follow walked [] current = []"
| "walk_calls rec follow walked (segment # rest) current =
     (if \<not> isDirectory (snd current) then []
      else
        (case getChild (snd current) segment of
           None \<Rightarrow> []
         | Some child \<Rightarrow>
             (case child of
                VFSSymlink target \<Rightarrow>
                  if follow \<or> rest \<noteq> [] then
                    symlinkTargetPath walked target #
                    (case rec (symlinkTargetPath walked target) of
                       Inr (Some resolved) \<Rightarrow>
                         if rest = [] then []
                         else walk_calls rec follow (walked @ [segment]) rest resolved
                     | _ \<Rightarrow> [])
                  else []
              | _ \<Rightarrow>
                  walk_calls rec follow (walked @ [segment]) rest
                    (fst current @ [segment], child))))"

definition follows_to :: "nat \<Rightarrow> VFSNode \<Rightarrow> string \<Rightarrow> string list" where
  "follows_to m rt p =
     (case resolvePath p of
        Inl e \<Rightarrow> []
      | Inr r \<Rightarrow>
          if isRoot r then []
          else walk_calls (\<lambda>q. resolveNode m rt q True 1) True [] (segments r) ([], rt))"

definition follows :: "nat \<Rightarrow> VFSNode \<Rightarrow> (string \<times> string) set" where
  "follows m rt = {(p, q). q \<in> set (follows_to m rt p)}"

text \<open>An outcome that is the throw of \<open>SymlinkLoop\<close>.\<close>

definition is_loop :: "error + 'a \<Rightarrow> bool" where
  "is_loop x = (\<exists>q. x = Inl (SymlinkLoopError q))"

text \<open>
  \<open>extends h h'\<close>: the store \<open>h'\<close> is \<open>h\<close> with new objects. What was allocated in \<open>h\<close> is
  unchanged, and an object at a new address refers to new addresses only.
\<close>

definition extends :: "object_store \<Rightarrow> object_store \<Rightarrow> bool" where
  "extends h h' =
     (fresh h \<le> fresh h' \<and> rootAddress h' = rootAddress h
      \<and> snapshotRoots h' = snapshotRoots h \<and> counter h' = counter h
      \<and> (\<forall>x. x < fresh h \<longrightarrow> cells h' x = cells h x)
      \<and> (\<forall>x obj. fresh h \<le> x \<longrightarrow> cells h' x = Some obj \<longrightarrow>
            x < fresh h' \<and> (\<forall>(nm, c) \<in> set (entries_of obj). fresh h \<le> c \<and> c < fresh h')))"

text \<open>
  What is kept for a snapshot stored at address \<open>stored\<close> with the value \<open>t\<close>: the store is
  closed, the root is a directory, the snapshot is registered under its id, its objects
  have the value \<open>t\<close>, and no object of the snapshot is reached from the live root.
\<close>

fun is_directory :: "object option \<Rightarrow> bool" where
  "is_directory (Some (DirectoryObject s entries)) = True"
| "is_directory other = False"

definition kept :: "object_store \<Rightarrow> string \<Rightarrow> address \<Rightarrow> tree \<Rightarrow> bool" where
  "kept h snapshotId stored t =
     (closed h \<and> is_directory (cells h (rootAddress h))
      \<and> map_of (snapshotRoots h) snapshotId = Some stored
      \<and> stored < fresh h \<and> represents (cells h) stored t
      \<and> reach (cells h) (rootAddress h) \<inter> reach (cells h) stored = {})"

text \<open>
  \<open>changes_at h a h'\<close>: the store \<open>h'\<close> is \<open>h\<close> with the object at \<open>a\<close> changed, its kind kept
  and its entries among the old entries and the pairs in \<open>extra\<close>.
\<close>

definition changes_at ::
  "object_store \<Rightarrow> address \<Rightarrow> (string \<times> address) set \<Rightarrow> object_store \<Rightarrow> bool"
where
  "changes_at h a extra h' =
     (fresh h' = fresh h \<and> rootAddress h' = rootAddress h
      \<and> snapshotRoots h' = snapshotRoots h \<and> counter h' = counter h
      \<and> (\<forall>x. x \<noteq> a \<longrightarrow> cells h' x = cells h x)
      \<and> (cells h a = None \<longleftrightarrow> cells h' a = None)
      \<and> is_directory (cells h' a) = is_directory (cells h a)
      \<and> (\<forall>obj'. cells h' a = Some obj' \<longrightarrow>
            (\<exists>obj. cells h a = Some obj \<and> set (entries_of obj') \<subseteq> set (entries_of obj) \<union> extra)))"

text \<open>What every successful clone does to the store.\<close>

definition cloned_ok :: "object_store \<Rightarrow> address \<Rightarrow> object_store \<Rightarrow> bool" where
  "cloned_ok h a' h' = (extends h h' \<and> fresh h \<le> a' \<and> a' < fresh h')"

definition cloned_entries_ok ::
  "object_store \<Rightarrow> (string \<times> address) list \<Rightarrow> (string \<times> address) list \<Rightarrow> object_store \<Rightarrow> bool"
where
  "cloned_entries_ok h entries cloned h' =
     (extends h h' \<and> map fst cloned = map fst entries
      \<and> (\<forall>(nm, c) \<in> set cloned. fresh h \<le> c \<and> c < fresh h'))"

text \<open>
  \<open>fits cs n a\<close>: the objects at and below \<open>a\<close> are nested less than \<open>n\<close> deep, so that a
  pass with fuel \<open>n\<close> visits all of them.
\<close>

fun fits :: "(address \<Rightarrow> object option) \<Rightarrow> nat \<Rightarrow> address \<Rightarrow> bool" where
  "fits cs 0 a = False"
| "fits cs (Suc n) a =
     (case cs a of
        None \<Rightarrow> False
      | Some obj \<Rightarrow> (\<forall>(nm, c) \<in> set (entries_of obj). fits cs n c))"

text \<open>
  \<open>alike h h'\<close>: the two stores have the same root, the same snapshots and, at every
  address, the same entries. \<open>counted h r\<close>: the pass \<open>r\<close> over the live tree of \<open>h\<close> returns a
  store that is alike and that is reached from \<open>h\<close> by steps of the file system.
\<close>

definition alike :: "object_store \<Rightarrow> object_store \<Rightarrow> bool" where
  "alike h h' =
     (rootAddress h' = rootAddress h \<and> snapshotRoots h' = snapshotRoots h
      \<and> (\<forall>x. map_option entries_of (cells h' x) = map_option entries_of (cells h x)))"

definition counted :: "object_store \<Rightarrow> object_store option \<Rightarrow> bool" where
  "counted h r = (\<exists>h'. r = Some h' \<and> rtranclp step h h' \<and> alike h h')"

text \<open>The two loops of \<open>restoreSnapshot\<close> on the store.\<close>

definition emptied_root :: "nat \<Rightarrow> object_store \<Rightarrow> object_store" where
  "emptied_root now h =
     foldl (\<lambda>h' nm. update_cell (rootAddress h) (call (RemoveChild nm) now) h') h
       (case cells h (rootAddress h) of Some obj \<Rightarrow> map fst (entries_of obj) | None \<Rightarrow> [])"

definition refilled_root :: "nat \<Rightarrow> address \<Rightarrow> address \<Rightarrow> object_store \<Rightarrow> object_store" where
  "refilled_root now r cloned h2 =
     foldl (\<lambda>h' (nm, a). update_cell r (addChild_object nm a now) h') h2
       (case cells h2 cloned of Some obj \<Rightarrow> entries_of obj | None \<Rightarrow> [])"

text \<open>A store with a root directory that holds one file, for a concrete run.\<close>

definition example_stats :: stats where
  "example_stats =
     \<lparr> mode = 420, uid = 0, gid = 0, createdTime = 1, modifiedTime = 1, accessedTime = 1 \<rparr>"

definition example_store :: object_store where
  "example_store =
     \<lparr> cells = [0 \<mapsto> DirectoryObject example_stats [(''f'', 1)],
                1 \<mapsto> FileObject example_stats [104, 105]],
       fresh = 2, rootAddress = 0, snapshotRoots = [], counter = 0 \<rparr>"

section \<open>Path normalization\<close>

lemma slash_neq_backslash: "slash \<noteq> backslash"
  by (simp add: slash_def backslash_def)

lemma split_on_nonempty: "split_on c s \<noteq> []"
  by (induction s) auto

lemma split_on_no_sep: "p \<in> set (split_on c s) \<Longrightarrow> c \<notin> set p"
proof (induction s arbitrary: p)
  case Nil
  then show ?case by simp
next
  case (Cons x xs)
  show ?case
  proof (cases "x = c")
    case True
    with Cons show ?thesis by auto
  next
    case False
    obtain q qs where split: "split_on c xs = q # qs"
      using split_on_nonempty [of c xs] by (cases "split_on c xs") auto
    with Cons False show ?thesis by auto
  qed
qed

lemma split_on_subset: "p \<in> set (split_on c s) \<Longrightarrow> set p \<subseteq> set s"
proof (induction s arbitrary: p)
  case Nil
  then show ?case by simp
next
  case (Cons x xs)
  obtain q qs where split: "split_on c xs = q # qs"
    using split_on_nonempty [of c xs] by (cases "split_on c xs") auto
  have q: "set q \<subseteq> set xs" using Cons.IH [of q] split by simp
  have qs: "\<And>r. r \<in> set qs \<Longrightarrow> set r \<subseteq> set xs" using Cons.IH split by simp
  show ?case
  proof (cases "x = c")
    case True
    then show ?thesis using Cons.prems split q qs by auto
  next
    case False
    then have "p = x # q \<or> p \<in> set qs" using Cons.prems split by simp
    then show ?thesis using q qs by auto
  qed
qed

lemma split_on_plain: "c \<notin> set p \<Longrightarrow> split_on c p = [p]"
  by (induction p) auto

lemma split_on_append: "c \<notin> set p \<Longrightarrow> split_on c (p @ c # s) = p # split_on c s"
  by (induction p) auto

lemma split_on_join:
  "ps \<noteq> [] \<Longrightarrow> \<forall>p \<in> set ps. slash \<notin> set p \<Longrightarrow> split_on slash (join_slash ps) = ps"
proof (induction ps rule: join_slash.induct)
  case 1
  then show ?case by simp
next
  case (2 p)
  then show ?case by (simp add: split_on_plain)
next
  case (3 p q ps)
  then show ?case by (simp add: split_on_append)
qed

lemma replace_backslash_id: "backslash \<notin> set s \<Longrightarrow> replace_backslash s = s"
  by (induction s) (auto simp: replace_backslash_def slash_neq_backslash)

lemma replace_backslash_free: "backslash \<notin> set (replace_backslash s)"
  using slash_neq_backslash by (auto simp: replace_backslash_def)

lemma collapse_slashes_subset: "set (collapse_slashes s) \<subseteq> set s"
  by (induction s rule: collapse_slashes.induct) auto

lemma collapse_slashes_id: "no_double s \<Longrightarrow> collapse_slashes s = s"
  by (induction s rule: collapse_slashes.induct) auto

lemma no_double_append:
  "slash \<notin> set p \<Longrightarrow> no_double t \<Longrightarrow> no_double (p @ t)"
proof (induction p)
  case Nil
  then show ?case by simp
next
  case (Cons a p)
  then show ?case by (cases "p @ t") auto
qed

lemma no_double_slash_cons:
  "no_double t \<Longrightarrow> (t = [] \<or> hd t \<noteq> slash) \<Longrightarrow> no_double (slash # t)"
  by (cases t) auto

lemma join_slash_hd:
  "\<forall>p \<in> set ps. p \<noteq> [] \<and> slash \<notin> set p \<Longrightarrow> join_slash ps = [] \<or> hd (join_slash ps) \<noteq> slash"
  by (induction ps rule: join_slash.induct) (auto simp: hd_append dest: hd_in_set)

lemma no_double_join:
  "\<forall>p \<in> set ps. p \<noteq> [] \<and> slash \<notin> set p \<Longrightarrow> no_double (join_slash ps)"
proof (induction ps rule: join_slash.induct)
  case 1
  then show ?case by simp
next
  case (2 p)
  then show ?case using no_double_append [of p "[]"] by simp
next
  case (3 p q ps)
  then have "no_double (join_slash (q # ps))" by simp
  moreover have "join_slash (q # ps) = [] \<or> hd (join_slash (q # ps)) \<noteq> slash"
    using 3 join_slash_hd [of "q # ps"] by simp
  ultimately have "no_double (slash # join_slash (q # ps))"
    by (rule no_double_slash_cons)
  with 3 show ?case using no_double_append [of p] by simp
qed

lemma set_join_slash: "set (join_slash ps) \<subseteq> insert slash (\<Union> (set ` set ps))"
  by (induction ps rule: join_slash.induct) auto

lemma normalize_step_ok:
  assumes "stack_ok a st" "slash \<notin> set part" "backslash \<notin> set part"
  shows "stack_ok a (normalize_step a st part)"
proof -
  from assms(1) obtain k rest where st: "st = replicate k ''..'' @ rest"
    and rest: "\<forall>p \<in> set rest. plain p" and k: "a \<longrightarrow> k = 0"
    unfolding stack_ok_def by blast
  consider (skip) "part = [] \<or> part = ''.''" | (up) "part = ''..''"
    | (name) "part \<noteq> []" "part \<noteq> ''.''" "part \<noteq> ''..''" by blast
  then show ?thesis
  proof cases
    case skip
    then show ?thesis using assms(1) by (auto simp: normalize_step_def)
  next
    case up
    show ?thesis
    proof (cases "rest = []")
      case True
      then have "st = [] \<or> last st = ''..''" using st by (cases k) auto
      then have "normalize_step a st part = (if a then st else st @ [''..''])"
        using up by (auto simp: normalize_step_def)
      moreover have "stack_ok a (st @ [''..''])" if "\<not> a"
      proof -
        have "st @ [''..''] = replicate (Suc k) ''..'' @ []"
          using st True by (simp add: replicate_append_same)
        then show ?thesis
          unfolding stack_ok_def using that
          by (intro exI [of _ "Suc k"] exI [of _ "[]"]) simp
      qed
      ultimately show ?thesis using assms(1) by (cases a) simp_all
    next
      case False
      then have "last st = last rest" "plain (last rest)" using st rest by auto
      then have "st \<noteq> [] \<and> last st \<noteq> ''..''" using st False by (auto simp: plain_def)
      then have "normalize_step a st part = butlast st"
        using up by (auto simp: normalize_step_def)
      moreover have "butlast st = replicate k ''..'' @ butlast rest"
        using st False by (simp add: butlast_append)
      moreover have "\<forall>p \<in> set (butlast rest). plain p"
        using rest by (auto dest: in_set_butlastD)
      ultimately show ?thesis
        unfolding stack_ok_def using k
        by (intro exI [of _ k] exI [of _ "butlast rest"]) simp
    qed
  next
    case name
    then have "plain part" using assms by (simp add: plain_def)
    moreover have "normalize_step a st part = st @ [part]"
      using name by (simp add: normalize_step_def)
    ultimately show ?thesis
      unfolding stack_ok_def using st rest k
      by (intro exI [of _ k] exI [of _ "rest @ [part]"]) auto
  qed
qed

lemma foldl_normalize_step_ok:
  "stack_ok a st \<Longrightarrow> \<forall>p \<in> set parts. slash \<notin> set p \<and> backslash \<notin> set p
     \<Longrightarrow> stack_ok a (foldl (normalize_step a) st parts)"
  by (induction parts arbitrary: st) (auto simp: normalize_step_ok)

lemma foldl_plain: "\<forall>p \<in> set ps. plain p \<Longrightarrow> foldl (normalize_step a) st ps = st @ ps"
  by (induction ps arbitrary: st) (auto simp: normalize_step_def plain_def)

lemma foldl_dotdots:
  "foldl (normalize_step False) (replicate j ''..'') (replicate k ''..'') = replicate (j + k) ''..''"
proof (induction k arbitrary: j)
  case 0
  then show ?case by simp
next
  case (Suc k)
  have "normalize_step False (replicate j ''..'') ''..'' = replicate (Suc j) ''..''"
    by (cases j) (auto simp: normalize_step_def replicate_append_same)
  then show ?case using Suc [of "Suc j"] by simp
qed

lemma foldl_stack_ok:
  assumes "stack_ok a st"
  shows "foldl (normalize_step a) [] st = st"
proof -
  from assms obtain k rest where st: "st = replicate k ''..'' @ rest"
    and rest: "\<forall>p \<in> set rest. plain p" and k: "a \<longrightarrow> k = 0"
    unfolding stack_ok_def by blast
  show ?thesis
  proof (cases a)
    case True
    then show ?thesis using st rest k by (simp add: foldl_plain)
  next
    case False
    have "foldl (normalize_step False) [] (replicate k ''..'') = replicate k ''..''"
      using foldl_dotdots [of 0 k] by simp
    then show ?thesis using False st rest by (simp add: foldl_plain)
  qed
qed

lemma stack_ok_parts:
  assumes "stack_ok a st" "p \<in> set st"
  shows "p \<noteq> [] \<and> slash \<notin> set p \<and> backslash \<notin> set p \<and> p \<noteq> ''.''"
proof -
  from assms(1) obtain k rest where st: "st = replicate k ''..'' @ rest"
    and rest: "\<forall>p \<in> set rest. plain p"
    unfolding stack_ok_def by blast
  have "p = ''..'' \<or> plain p" using assms(2) st rest by auto
  then show ?thesis by (auto simp: plain_def slash_def backslash_def)
qed

lemma normalizePath_abs_fix:
  assumes "stack_ok True st"
  shows "normalizePath (slash # join_slash st) = slash # join_slash st"
proof -
  let ?s = "slash # join_slash st"
  have parts: "\<forall>p \<in> set st. p \<noteq> [] \<and> slash \<notin> set p"
    using stack_ok_parts [OF assms] by blast
  have "backslash \<notin> set ?s"
    using stack_ok_parts [OF assms] set_join_slash [of st] slash_neq_backslash by auto
  then have rb: "replace_backslash ?s = ?s" by (rule replace_backslash_id)
  have "no_double ?s"
    using no_double_join [OF parts] join_slash_hd [OF parts] by (rule no_double_slash_cons)
  then have cs: "collapse_slashes ?s = ?s" by (rule collapse_slashes_id)
  have sw: "startsWith ?s ''/''" by (simp add: startsWith_def slash_def)
  show ?thesis
  proof (cases "st = []")
    case True
    then show ?thesis
      by (simp add: normalizePath_def replace_backslash_def startsWith_def slash_def
          backslash_def normalize_step_def)
  next
    case False
    then have "split_on slash ?s = [] # st"
      using split_on_join [of st] parts by simp
    moreover have "foldl (normalize_step True) [] ([] # st) = st"
      using foldl_stack_ok [OF assms] by (simp add: normalize_step_def)
    ultimately show ?thesis
      using rb cs sw by (simp add: normalizePath_def Let_def)
  qed
qed

lemma normalizePath_rel_fix:
  assumes "stack_ok False st" "st \<noteq> []"
  shows "normalizePath (join_slash st) = join_slash st"
proof -
  let ?s = "join_slash st"
  have parts: "\<forall>p \<in> set st. p \<noteq> [] \<and> slash \<notin> set p"
    using stack_ok_parts [OF assms(1)] by blast
  have ne: "?s \<noteq> []"
    using assms(2) parts by (cases st rule: join_slash.cases) auto
  have "backslash \<notin> set ?s"
    using stack_ok_parts [OF assms(1)] set_join_slash [of st] slash_neq_backslash by auto
  then have rb: "replace_backslash ?s = ?s" by (rule replace_backslash_id)
  have cs: "collapse_slashes ?s = ?s"
    using no_double_join [OF parts] by (rule collapse_slashes_id)
  have "hd ?s \<noteq> slash" using join_slash_hd [OF parts] ne by blast
  then have sw: "\<not> startsWith ?s ''/''"
    using ne by (cases ?s) (auto simp: startsWith_def slash_def)
  have "split_on slash ?s = st" using split_on_join [OF assms(2)] parts by blast
  moreover have "foldl (normalize_step False) [] st = st"
    using foldl_stack_ok [OF assms(1)] .
  ultimately show ?thesis
    using rb cs sw ne by (simp add: normalizePath_def Let_def)
qed

lemma normalizePath_cases:
  "normalizePath p = ''/'' \<or> normalizePath p = ''.''
   \<or> (\<exists>st. stack_ok True st \<and> normalizePath p = slash # join_slash st)
   \<or> (\<exists>st. stack_ok False st \<and> st \<noteq> [] \<and> normalizePath p = join_slash st)"
proof (cases "p = []")
  case True
  then show ?thesis by (simp add: normalizePath_def)
next
  case False
  define normalized where "normalized = collapse_slashes (replace_backslash p)"
  define a where "a = startsWith normalized ''/''"
  define st where "st = foldl (normalize_step a) [] (split_on slash normalized)"
  have "backslash \<notin> set normalized"
    using collapse_slashes_subset [of "replace_backslash p"] replace_backslash_free [of p]
    unfolding normalized_def by blast
  then have "\<forall>q \<in> set (split_on slash normalized). slash \<notin> set q \<and> backslash \<notin> set q"
    using split_on_no_sep split_on_subset by blast
  moreover have "stack_ok a []" unfolding stack_ok_def by simp
  ultimately have ok: "stack_ok a st"
    unfolding st_def by (rule foldl_normalize_step_ok [rotated])
  have np: "normalizePath p =
      (let result = (if a then slash # join_slash st else join_slash st)
       in if result = [] then (if a then ''/'' else ''.'') else result)"
    using False by (simp add: normalizePath_def Let_def normalized_def a_def st_def)
  show ?thesis
  proof (cases a)
    case True
    then show ?thesis using np ok by auto
  next
    case False
    show ?thesis
    proof (cases "st = []")
      case True
      then show ?thesis using np False by simp
    next
      case nonempty: False
      have "\<forall>q \<in> set st. q \<noteq> [] \<and> slash \<notin> set q"
        using stack_ok_parts [OF ok] by blast
      then have "join_slash st \<noteq> []"
        using nonempty by (cases st rule: join_slash.cases) auto
      then show ?thesis using np False ok nonempty by auto
    qed
  qed
qed

text \<open>
  Claim C7: \<open>normalizePath\<close> is idempotent; for every input text \<open>p\<close>, normalizing the
  normalized path gives the normalized path again.
\<close>

theorem normalizePath_idempotent: "normalizePath (normalizePath p) = normalizePath p"
proof -
  have root: "normalizePath ''/'' = ''/''"
    by (simp add: normalizePath_def replace_backslash_def startsWith_def slash_def
        backslash_def normalize_step_def)
  have dot: "normalizePath ''.'' = ''.''"
    by (simp add: normalizePath_def replace_backslash_def startsWith_def slash_def
        backslash_def normalize_step_def)
  from normalizePath_cases [of p] show ?thesis
    using root dot normalizePath_abs_fix normalizePath_rel_fix by (elim disjE exE) auto
qed

section \<open>Resolution\<close>

lemma resolvePath_invalid: "validatePath p = Some e \<Longrightarrow> resolvePath p = Inl e"
  by (simp add: resolvePath_def)

lemma resolvePath_Inr:
  assumes "resolvePath p = Inr r"
  shows "validatePath p = None"
    and "isRoot r \<longleftrightarrow> normalizePath p = ''/''"
    and "segments r = splitPath (normalizePath p)"
  using assms by (auto simp: resolvePath_def Let_def split: option.splits)

lemma splitPath_root: "splitPath ''/'' = []"
  by code_simp

lemma resolvePath_segments_not_root:
  assumes "resolvePath p = Inr r" "segments r \<noteq> []"
  shows "\<not> isRoot r"
proof
  assume "isRoot r"
  then have "normalizePath p = ''/''" using resolvePath_Inr(2) [OF assms(1)] by simp
  then have "segments r = splitPath ''/''" using resolvePath_Inr(3) [OF assms(1)] by simp
  then show False using assms(2) splitPath_root by simp
qed

lemma resolveNode_too_deep: "d > m \<Longrightarrow> resolveNode m rt p follow d = Inl (SymlinkLoopError p)"
  by (subst resolveNode.simps) simp

lemma resolve_invalid: "validatePath p = Some e \<Longrightarrow> resolve vfs p follow = Inl e"
  unfolding resolve_def by (subst resolveNode.simps) (simp add: resolvePath_invalid)

lemma resolve_walk:
  assumes "resolvePath p = Inr r" "\<not> isRoot r"
  shows "resolveNode m rt p follow d =
     (if d > m then Inl (SymlinkLoopError p)
      else walk (\<lambda>q. resolveNode m rt q True (d + 1)) follow [] (segments r) ([], rt))"
  using assms by (subst resolveNode.simps) simp

lemma walk_to_final_link:
  "get_at (ds @ [l]) n = Some (VFSSymlink t)
     \<Longrightarrow> walk rec False walked (ds @ [l]) (loc, n) = Inr (Some (loc @ ds @ [l], VFSSymlink t))"
proof (induction ds arbitrary: n loc walked)
  case Nil
  then obtain cs where n: "n = VFSDirectory cs" by (cases n) auto
  with Nil show ?case by (auto simp: getChild_def split: option.splits)
next
  case (Cons d ds)
  then obtain cs where n: "n = VFSDirectory cs" by (cases n) auto
  with Cons.prems obtain c where c: "map_of cs d = Some c"
    and below: "get_at (ds @ [l]) c = Some (VFSSymlink t)"
    by (auto split: option.splits)
  have "\<not> isSymlink c" using below by (cases c; cases ds) auto
  then have "walk rec False walked ((d # ds) @ [l]) (loc, n)
      = walk rec False (walked @ [d]) (ds @ [l]) (loc @ [d], c)"
    using n c by (cases c) (auto simp: getChild_def)
  then show ?case using Cons.IH [OF below] by simp
qed

text \<open>
  Claim C9: \<open>exists\<close> does not follow a link at the final segment. When the segments of a
  path lead through real directories to a symbolic link, \<open>exists\<close> answers \<open>true\<close>, whatever
  the target of the link is: a path that does not exist, or a link of a cycle.
\<close>

theorem exists_does_not_follow_final_link:
  assumes "resolvePath p = Inr r"
    and "segments r = ds @ [l]"
    and "get_at (ds @ [l]) (root vfs) = Some (VFSSymlink t)"
  shows "exists vfs p"
proof -
  have "\<not> isRoot r" using resolvePath_segments_not_root [OF assms(1)] assms(2) by simp
  then have "resolve vfs p False
      = walk (\<lambda>q. resolveNode (maxSymlinkDepth vfs) (root vfs) q True 1) False [] (ds @ [l])
          ([], root vfs)"
    using assms(1,2) resolve_walk [of p r] by (simp add: resolve_def)
  then have "resolve vfs p False = Inr (Some (ds @ [l], VFSSymlink t))"
    using walk_to_final_link [OF assms(3)] by simp
  then show ?thesis by (simp add: exists_def)
qed

theorem exists_does_not_follow_final_link_witness:
  "(let cyclic = snd (createSymlink (snd (createSymlink createVFS ''/b'' ''/a'')) ''/a'' ''/b'');
        dangling = snd (createSymlink createVFS ''/nowhere'' ''/d/link'')
    in exists cyclic ''/a'' \<and> (\<exists>q. readFile cyclic ''/a'' = Inl (SymlinkLoopError q))
       \<and> exists dangling ''/d/link''
       \<and> readFile dangling ''/d/link'' = Inl (FileNotFoundError ''/d/link''))"
proof -
  define cyclic where
    "cyclic = snd (createSymlink (snd (createSymlink createVFS ''/b'' ''/a'')) ''/a'' ''/b'')"
  define dangling where "dangling = snd (createSymlink createVFS ''/nowhere'' ''/d/link'')"
  have ra: "resolvePath ''/a'' = Inr \<lparr> fullPath = ''/a'', parentPath = ''/'', name = ''a'',
      segments = [] @ [''a''], isRoot = False \<rparr>"
    by code_simp
  have ga: "get_at ([] @ [''a'']) (root cyclic) = Some (VFSSymlink ''/b'')"
    unfolding cyclic_def by code_simp
  have ea: "exists cyclic ''/a''"
    using exists_does_not_follow_final_link [OF ra _ ga] by simp
  have rl: "resolvePath ''/d/link'' = Inr \<lparr> fullPath = ''/d/link'', parentPath = ''/d'',
      name = ''link'', segments = [''d''] @ [''link''], isRoot = False \<rparr>"
    by code_simp
  have gl: "get_at ([''d''] @ [''link'']) (root dangling) = Some (VFSSymlink ''/nowhere'')"
    unfolding dangling_def by code_simp
  have el: "exists dangling ''/d/link''"
    using exists_does_not_follow_final_link [OF rl _ gl] by simp
  have rd: "readFile cyclic ''/a'' = Inl (SymlinkLoopError ''/b'')"
    unfolding cyclic_def by code_simp
  have rn: "readFile dangling ''/d/link'' = Inl (FileNotFoundError ''/d/link'')"
    unfolding dangling_def by code_simp
  show ?thesis
    using ea el rd rn unfolding cyclic_def dangling_def by simp
qed

section \<open>Cycles\<close>

text \<open>
  Two runs of the loop whose nested resolutions agree up to a throw of \<open>SymlinkLoop\<close> in
  the second run.
\<close>

lemma walk_lockstep:
  assumes "\<forall>q r. rec q = Inr r \<longrightarrow> rec' q = Inr r \<or> is_loop (rec' q)"
  shows "walk rec follow walked segs cur = Inr r
     \<Longrightarrow> walk rec' follow walked segs cur = Inr r \<or> is_loop (walk rec' follow walked segs cur)"
proof (induction segs arbitrary: walked cur)
  case Nil
  then show ?case by simp
next
  case (Cons s rest)
  show ?case
  proof (cases "isDirectory (snd cur)")
    case False
    then show ?thesis using Cons.prems by simp
  next
    case True
    show ?thesis
    proof (cases "getChild (snd cur) s")
      case None
      then show ?thesis using Cons.prems True by simp
    next
      case (Some child)
      show ?thesis
      proof (cases child)
        case (VFSFile b)
        then show ?thesis using Cons.prems Cons.IH True Some by simp
      next
        case (VFSDirectory cs)
        then show ?thesis using Cons.prems Cons.IH True Some by simp
      next
        case (VFSSymlink target)
        show ?thesis
        proof (cases "follow \<or> rest \<noteq> []")
          case False
          then show ?thesis using Cons.prems True Some VFSSymlink by simp
        next
          case followed: True
          define tp where "tp = symlinkTargetPath walked target"
          from Cons.prems True Some VFSSymlink followed obtain x where x: "rec tp = Inr x"
            by (cases "rec tp") (auto simp: tp_def)
          then consider (same) "rec' tp = Inr x" | (loop) "is_loop (rec' tp)"
            using assms by blast
          then show ?thesis
          proof cases
            case loop
            then show ?thesis
              using True Some VFSSymlink followed by (auto simp: tp_def is_loop_def)
          next
            case same
            show ?thesis
            proof (cases x)
              case None
              then show ?thesis
                using Cons.prems True Some VFSSymlink followed x same by (simp add: tp_def)
            next
              case (Some resolved)
              show ?thesis
              proof (cases "rest = []")
                case True
                then show ?thesis
                  using Cons.prems \<open>isDirectory (snd cur)\<close> \<open>getChild (snd cur) s = Some child\<close>
                    VFSSymlink followed x same Some
                  by (auto simp: tp_def)
              next
                case False
                then have "walk rec follow (walked @ [s]) rest resolved = Inr r"
                  using Cons.prems \<open>isDirectory (snd cur)\<close> \<open>getChild (snd cur) s = Some child\<close>
                    VFSSymlink x Some
                  by (simp add: tp_def)
                from Cons.IH [OF this] show ?thesis
                  using False \<open>isDirectory (snd cur)\<close> \<open>getChild (snd cur) s = Some child\<close>
                    VFSSymlink same Some
                  by (simp add: tp_def)
              qed
            qed
          qed
        qed
      qed
    qed
  qed
qed

lemma resolveNode_stable:
  "resolveNode m rt p follow d = Inr r
     \<Longrightarrow> resolveNode m' rt p follow d' = Inr r \<or> is_loop (resolveNode m' rt p follow d')"
proof (induction "Suc m' - d'" arbitrary: m d p r d' follow)
  case 0
  then have "d' > m'" by simp
  then show ?case by (simp add: resolveNode_too_deep is_loop_def)
next
  case (Suc b)
  have d: "\<not> d > m" using Suc.prems by (auto simp: resolveNode_too_deep)
  have d': "\<not> d' > m'" using Suc.hyps(2) by simp
  obtain res where res: "resolvePath p = Inr res"
    using Suc.prems d by (subst (asm) resolveNode.simps) (auto split: sum.splits)
  show ?case
  proof (cases "isRoot res")
    case True
    then show ?thesis
      using Suc.prems res d d'
      by (subst (asm) resolveNode.simps, subst resolveNode.simps, subst resolveNode.simps) simp
  next
    case False
    have rel: "\<forall>q r. resolveNode m rt q True (d + 1) = Inr r
        \<longrightarrow> resolveNode m' rt q True (d' + 1) = Inr r
            \<or> is_loop (resolveNode m' rt q True (d' + 1))"
      using Suc.hyps(1) [of "d' + 1"] Suc.hyps(2) by auto
    have "walk (\<lambda>q. resolveNode m rt q True (d + 1)) follow [] (segments res) ([], rt) = Inr r"
      using Suc.prems resolve_walk [OF res False] d by simp
    from walk_lockstep [OF rel this] show ?thesis
      using resolve_walk [OF res False, of m' rt follow d'] d' by simp
  qed
qed

lemma walk_calls_loop:
  assumes "\<forall>q r. rec q = Inr r \<longrightarrow> rec' q = Inr r \<or> is_loop (rec' q)"
    and "is_loop (rec' q)"
  shows "q \<in> set (walk_calls rec follow walked segs cur)
     \<Longrightarrow> is_loop (walk rec' follow walked segs cur)"
proof (induction segs arbitrary: walked cur)
  case Nil
  then show ?case by simp
next
  case (Cons s rest)
  from Cons.prems have dir: "isDirectory (snd cur)" by (auto split: if_splits)
  from Cons.prems dir obtain child where child: "getChild (snd cur) s = Some child"
    by (cases "getChild (snd cur) s") auto
  show ?case
  proof (cases child)
    case (VFSFile b)
    then show ?thesis using Cons.prems Cons.IH dir child by simp
  next
    case (VFSDirectory cs)
    then show ?thesis using Cons.prems Cons.IH dir child by simp
  next
    case (VFSSymlink target)
    define tp where "tp = symlinkTargetPath walked target"
    have followed: "follow \<or> rest \<noteq> []"
      using Cons.prems dir child VFSSymlink by (auto split: if_splits)
    show ?thesis
    proof (cases "is_loop (rec' tp)")
      case True
      then show ?thesis
        using dir child VFSSymlink followed by (auto simp: tp_def is_loop_def)
    next
      case False
      then have "q \<noteq> tp" using assms(2) by blast
      then have "q \<in> set (case rec tp of
            Inr (Some resolved) \<Rightarrow>
              if rest = [] then [] else walk_calls rec follow (walked @ [s]) rest resolved
          | _ \<Rightarrow> [])"
        using Cons.prems dir child VFSSymlink followed by (auto simp: tp_def)
      then obtain resolved where rec: "rec tp = Inr (Some resolved)" and rest: "rest \<noteq> []"
        and later: "q \<in> set (walk_calls rec follow (walked @ [s]) rest resolved)"
        by (cases "rec tp"; cases "projr (rec tp)"; cases "rest = []") auto
      have "rec' tp = Inr (Some resolved)" using assms(1) rec False by blast
      then show ?thesis
        using Cons.IH [OF later] dir child VFSSymlink rest by (simp add: tp_def)
    qed
  qed
qed

lemma follows_loop:
  assumes "(p, q) \<in> follows m rt" "is_loop (resolveNode m' rt q True (d + 1))"
  shows "is_loop (resolveNode m' rt p True d)"
proof (cases "d > m'")
  case True
  then show ?thesis by (simp add: resolveNode_too_deep is_loop_def)
next
  case False
  from assms(1) obtain r where r: "resolvePath p = Inr r" "\<not> isRoot r"
    and q: "q \<in> set (walk_calls (\<lambda>q. resolveNode m rt q True 1) True [] (segments r) ([], rt))"
    by (cases "resolvePath p") (auto simp: follows_def follows_to_def split: if_splits)
  have rel: "\<forall>q r. resolveNode m rt q True 1 = Inr r
      \<longrightarrow> resolveNode m' rt q True (d + 1) = Inr r \<or> is_loop (resolveNode m' rt q True (d + 1))"
    using resolveNode_stable by blast
  from walk_calls_loop [OF rel assms(2) q] show ?thesis
    using resolve_walk [OF r, of m' rt True d] False by simp
qed

lemma cycle_loops:
  assumes "(p0, p) \<in> (follows m rt)\<^sup>*" "(p, p) \<in> (follows m rt)\<^sup>+"
  shows "is_loop (resolveNode m' rt p0 True d)"
proof -
  define D where "D = {x. \<exists>y. (x, y) \<in> (follows m rt)\<^sup>* \<and> (y, y) \<in> (follows m rt)\<^sup>+}"
  have next_in_D: "\<exists>x'. (x, x') \<in> follows m rt \<and> x' \<in> D" if "x \<in> D" for x
  proof -
    from that obtain y where xy: "(x, y) \<in> (follows m rt)\<^sup>*" and yy: "(y, y) \<in> (follows m rt)\<^sup>+"
      unfolding D_def by blast
    have "(x, y) \<in> (follows m rt)\<^sup>+"
    proof (cases "x = y")
      case True
      then show ?thesis using yy by simp
    next
      case False
      then show ?thesis using xy by (simp add: rtrancl_eq_or_trancl)
    qed
    then obtain x' where "(x, x') \<in> follows m rt" "(x', y) \<in> (follows m rt)\<^sup>*"
      by (auto dest: tranclD)
    then show ?thesis using yy unfolding D_def by blast
  qed
  have "\<forall>x \<in> D. is_loop (resolveNode m' rt x True d)"
  proof (induction "Suc m' - d" arbitrary: d)
    case 0
    then have "d > m'" by simp
    then show ?case by (simp add: resolveNode_too_deep is_loop_def)
  next
    case (Suc b)
    show ?case
    proof
      fix x assume "x \<in> D"
      then obtain x' where step: "(x, x') \<in> follows m rt" and "x' \<in> D"
        using next_in_D by blast
      then have "is_loop (resolveNode m' rt x' True (d + 1))"
        using Suc.hyps(1) [of "d + 1"] Suc.hyps(2) by simp
      then show "is_loop (resolveNode m' rt x True d)" using follows_loop [OF step] by simp
    qed
  qed
  moreover have "p0 \<in> D" using assms unfolding D_def by blast
  ultimately show ?thesis by blast
qed

text \<open>
  Cycles under the rule by which \<open>resolveNode\<close> computes target paths: when resolving a
  path turns, through any number of links, to a path from which following links leads
  back to that same path, resolving the first path with link following throws
  \<open>SymlinkLoop\<close>, and so does \<open>readFile\<close>, whatever the bound on the depth is. Resolution is
  a total function, so it returns in every case.
\<close>

theorem link_cycle_raises_SymlinkLoop:
  assumes "(p0, p) \<in> (follows m (root vfs))\<^sup>*"
    and "(p, p) \<in> (follows m (root vfs))\<^sup>+"
  shows "\<exists>q. resolve vfs p0 True = Inl (SymlinkLoopError q)
            \<and> readFile vfs p0 = Inl (SymlinkLoopError q)"
proof -
  from cycle_loops [OF assms, of "maxSymlinkDepth vfs" 0]
  obtain q where "resolve vfs p0 True = Inl (SymlinkLoopError q)"
    by (auto simp: is_loop_def resolve_def)
  then show ?thesis by (auto simp: readFile_def)
qed

theorem link_cycle_raises_SymlinkLoop_witness:
  "(let vfs = snd (createSymlink (snd (createSymlink createVFS ''/b'' ''/a'')) ''/a'' ''/b'')
    in root vfs = VFSDirectory [(''a'', VFSSymlink ''/b''), (''b'', VFSSymlink ''/a'')]
       \<and> (\<exists>q. readFile vfs ''/a'' = Inl (SymlinkLoopError q)))"
proof -
  define vfs where
    "vfs = snd (createSymlink (snd (createSymlink createVFS ''/b'' ''/a'')) ''/a'' ''/b'')"
  have tree: "root vfs = VFSDirectory [(''a'', VFSSymlink ''/b''), (''b'', VFSSymlink ''/a'')]"
    unfolding vfs_def by code_simp
  have "follows_to 0 (root vfs) ''/a'' = [''/b'']" unfolding tree by code_simp
  then have ab: "(''/a'', ''/b'') \<in> follows 0 (root vfs)" by (simp add: follows_def)
  have "follows_to 0 (root vfs) ''/b'' = [''/a'']" unfolding tree by code_simp
  then have ba: "(''/b'', ''/a'') \<in> follows 0 (root vfs)" by (simp add: follows_def)
  have start: "(''/a'', ''/a'') \<in> (follows 0 (root vfs))\<^sup>*" by simp
  have cycle: "(''/a'', ''/a'') \<in> (follows 0 (root vfs))\<^sup>+"
    using ab ba by (rule trancl_into_trancl [OF r_into_trancl])
  from link_cycle_raises_SymlinkLoop [OF start cycle]
  have "\<exists>q. readFile vfs ''/a'' = Inl (SymlinkLoopError q)" by blast
  then show ?thesis using tree unfolding vfs_def by simp
qed

section \<open>Paths that fail validation\<close>

lemma validate_parts_InvalidPath:
  "validate_parts parts p = Some e \<Longrightarrow> \<exists>path reason. e = InvalidPathError path reason"
  by (induction parts) (auto simp: validatePathSegment_def Let_def split: if_splits option.splits)

lemma validatePath_InvalidPath:
  "validatePath p = Some e \<Longrightarrow> \<exists>path reason. e = InvalidPathError path reason"
  by (auto simp: validatePath_def split: if_splits dest: validate_parts_InvalidPath)

lemma writeFileInternal_invalid:
  "validatePath p = Some e \<Longrightarrow> writeFileInternal vfs p c = (Inl e, vfs)"
  by (simp add: writeFileInternal_def resolvePath_invalid)

lemma readFile_invalid: "validatePath p = Some e \<Longrightarrow> readFile vfs p = Inl e"
  by (simp add: readFile_def resolve_invalid)

lemma invalid_path_facts:
  assumes "validatePath p = Some e"
  shows "\<exists>path reason. e = InvalidPathError path reason"
    and "writeFile vfs p c None = (Inl e, vfs)"
    and "appendFile vfs p c = (Inl e, vfs)"
    and "deleteFile vfs p = (Inl e, vfs)"
    and "createDirectory vfs p recursive = (Inl e, vfs)"
    and "deleteDirectory vfs p recursive = (Inl e, vfs)"
    and "createSymlink vfs target p = (Inl e, vfs)"
    and "copyFile vfs p dest = (Inl e, vfs)"
    and "moveFile vfs p dest = (Inl e, vfs)"
    and "copyFile vfs src p =
           (Inl (case readFile vfs src of Inl readError \<Rightarrow> readError | Inr content \<Rightarrow> e), vfs)"
    and "moveFile vfs src p =
           (Inl (case readFile vfs src of Inl readError \<Rightarrow> readError | Inr content \<Rightarrow> e), vfs)"
    and "p = filePath @ suffix \<Longrightarrow> writeFile vfs filePath c (Some suffix) = (Inl e, vfs)"
proof -
  show "\<exists>path reason. e = InvalidPathError path reason"
    using assms by (rule validatePath_InvalidPath)
  show "writeFile vfs p c None = (Inl e, vfs)"
    using assms by (simp add: writeFile_def writeFileInternal_invalid)
  show "appendFile vfs p c = (Inl e, vfs)"
    using assms by (simp add: appendFile_def resolve_invalid)
  show "deleteFile vfs p = (Inl e, vfs)"
    using assms by (simp add: deleteFile_def resolvePath_invalid)
  show "createDirectory vfs p recursive = (Inl e, vfs)"
    using assms by (simp add: createDirectory_def resolvePath_invalid)
  show "deleteDirectory vfs p recursive = (Inl e, vfs)"
    using assms by (simp add: deleteDirectory_def resolvePath_invalid)
  show "createSymlink vfs target p = (Inl e, vfs)"
    using assms by (simp add: createSymlink_def resolvePath_invalid)
  show copy_src: "copyFile vfs p dest = (Inl e, vfs)"
    using assms by (simp add: copyFile_def readFile_invalid)
  show "moveFile vfs p dest = (Inl e, vfs)"
    using copy_src by (simp add: moveFile_def)
  show copy_dest: "copyFile vfs src p =
      (Inl (case readFile vfs src of Inl readError \<Rightarrow> readError | Inr content \<Rightarrow> e), vfs)"
    using assms by (simp add: copyFile_def writeFileInternal_invalid split: sum.splits)
  show "moveFile vfs src p =
      (Inl (case readFile vfs src of Inl readError \<Rightarrow> readError | Inr content \<Rightarrow> e), vfs)"
    using copy_dest by (simp add: moveFile_def)
  show "writeFile vfs filePath c (Some suffix) = (Inl e, vfs)" if "p = filePath @ suffix"
  proof (cases "suffix = []")
    case True
    then have "validatePath filePath = Some e" using assms that by simp
    then show ?thesis using True by (simp add: writeFile_def writeFileInternal_invalid)
  next
    case False
    have "validatePath (filePath @ suffix) = Some e" using assms that by simp
    then show ?thesis using False by (simp add: writeFile_def writeFileInternal_invalid)
  qed
qed

text \<open>
  Claim C3, as amended: a path that fails validation makes the call throw the
  \<open>InvalidPath\<close> error of the validator and leaves the file system as it was, for
  \<open>writeFile\<close> without a temporary suffix, \<open>appendFile\<close>, \<open>deleteFile\<close>, \<open>createDirectory\<close>,
  \<open>deleteDirectory\<close>, the link path of \<open>createSymlink\<close> and the source path of \<open>copyFile\<close>
  and \<open>moveFile\<close>. \<open>writeFile\<close> with a temporary suffix does so when the path followed by
  the suffix fails validation. When the destination of \<open>copyFile\<close> or \<open>moveFile\<close> fails
  validation, the file system is left as it was and the call throws the error of
  reading the source if there is one, and the \<open>InvalidPath\<close> error otherwise.
\<close>

theorem invalid_path_leaves_tree_untouched:
  assumes "validatePath p = Some e"
  shows "(\<exists>path reason. e = InvalidPathError path reason)
    \<and> writeFile vfs p c None = (Inl e, vfs)
    \<and> appendFile vfs p c = (Inl e, vfs)
    \<and> deleteFile vfs p = (Inl e, vfs)
    \<and> createDirectory vfs p recursive = (Inl e, vfs)
    \<and> deleteDirectory vfs p recursive = (Inl e, vfs)
    \<and> createSymlink vfs target p = (Inl e, vfs)
    \<and> copyFile vfs p dest = (Inl e, vfs)
    \<and> moveFile vfs p dest = (Inl e, vfs)
    \<and> copyFile vfs src p =
          (Inl (case readFile vfs src of Inl readError \<Rightarrow> readError | Inr content \<Rightarrow> e), vfs)
    \<and> moveFile vfs src p =
          (Inl (case readFile vfs src of Inl readError \<Rightarrow> readError | Inr content \<Rightarrow> e), vfs)
    \<and> (\<forall>filePath suffix. p = filePath @ suffix
          \<longrightarrow> writeFile vfs filePath c (Some suffix) = (Inl e, vfs))"
  by (intro conjI allI impI;
      (erule invalid_path_facts(12) [OF assms] | rule invalid_path_facts(1-11) [OF assms]))

theorem invalid_path_leaves_tree_untouched_witness:
  "validatePath ''/a/b.'' = Some (InvalidPathError ''/a/b.'' (TrailingSpaceOrPeriod ''b.''))
   \<and> writeFile createVFS ''/a/b.'' [1] None
       = (Inl (InvalidPathError ''/a/b.'' (TrailingSpaceOrPeriod ''b.'')), createVFS)
   \<and> createSymlink createVFS ''/t'' ''/a/b.''
       = (Inl (InvalidPathError ''/a/b.'' (TrailingSpaceOrPeriod ''b.'')), createVFS)
   \<and> moveFile createVFS ''/a/b.'' ''/c''
       = (Inl (InvalidPathError ''/a/b.'' (TrailingSpaceOrPeriod ''b.'')), createVFS)
   \<and> copyFile createVFS ''/missing'' ''/a/b.'' = (Inl (FileNotFoundError ''/missing''), createVFS)
   \<and> writeFile createVFS ''/a/'' [1] (Some ''b.'')
       = (Inl (InvalidPathError ''/a/b.'' (TrailingSpaceOrPeriod ''b.'')), createVFS)"
proof -
  have invalid: "validatePath ''/a/b.'' = Some (InvalidPathError ''/a/b.'' (TrailingSpaceOrPeriod ''b.''))"
    by code_simp
  have missing: "readFile createVFS ''/missing'' = Inl (FileNotFoundError ''/missing'')"
    by code_simp
  note facts = invalid_path_leaves_tree_untouched [OF invalid,
      where vfs = createVFS and c = "[1]" and recursive = False and target = "''/t''"
        and dest = "''/c''" and src = "''/missing''"]
  have w: "writeFile createVFS ''/a/b.'' [1] None
      = (Inl (InvalidPathError ''/a/b.'' (TrailingSpaceOrPeriod ''b.'')), createVFS)"
    using facts by blast
  have s: "createSymlink createVFS ''/t'' ''/a/b.''
      = (Inl (InvalidPathError ''/a/b.'' (TrailingSpaceOrPeriod ''b.'')), createVFS)"
    using facts by blast
  have m: "moveFile createVFS ''/a/b.'' ''/c''
      = (Inl (InvalidPathError ''/a/b.'' (TrailingSpaceOrPeriod ''b.'')), createVFS)"
    using facts by blast
  have "copyFile createVFS ''/missing'' ''/a/b.''
      = (Inl (case readFile createVFS ''/missing'' of Inl readError \<Rightarrow> readError
              | Inr content \<Rightarrow> InvalidPathError ''/a/b.'' (TrailingSpaceOrPeriod ''b.'')),
         createVFS)"
    using facts by blast
  then have cp: "copyFile createVFS ''/missing'' ''/a/b.''
      = (Inl (FileNotFoundError ''/missing''), createVFS)"
    using missing by simp
  have "\<forall>filePath suffix. ''/a/b.'' = filePath @ suffix
      \<longrightarrow> writeFile createVFS filePath [1] (Some suffix)
          = (Inl (InvalidPathError ''/a/b.'' (TrailingSpaceOrPeriod ''b.'')), createVFS)"
    using facts by blast
  then have "''/a/b.'' = ''/a/'' @ ''b.''
      \<longrightarrow> writeFile createVFS ''/a/'' [1] (Some ''b.'')
          = (Inl (InvalidPathError ''/a/b.'' (TrailingSpaceOrPeriod ''b.'')), createVFS)"
    by blast
  then have t: "writeFile createVFS ''/a/'' [1] (Some ''b.'')
      = (Inl (InvalidPathError ''/a/b.'' (TrailingSpaceOrPeriod ''b.'')), createVFS)"
    by simp
  show ?thesis
    using invalid w s m cp t by blast
qed

text \<open>
  Claim C3 as stated fails: with a temporary suffix, \<open>writeFile\<close> to a path that fails
  validation throws \<open>InvalidPath\<close> after the temporary file has been written; \<open>copyFile\<close>
  from a missing source to a path that fails validation throws \<open>FileNotFound\<close>; and
  \<open>createSymlink\<close> stores a target that fails validation.
\<close>

theorem invalid_path_may_change_tree_counterexample:
  "validatePath ''/foo.'' \<noteq> None
   \<and> fst (writeFile createVFS ''/foo.'' [1] (Some ''tmp''))
       = Inl (InvalidPathError ''/foo.'' (TrailingSpaceOrPeriod ''foo.''))
   \<and> root (snd (writeFile createVFS ''/foo.'' [1] (Some ''tmp'')))
       = VFSDirectory [(''foo.tmp'', VFSFile [1])]
   \<and> root createVFS = VFSDirectory []
   \<and> validatePath ''/bad.'' \<noteq> None
   \<and> fst (copyFile createVFS ''/missing'' ''/bad.'') = Inl (FileNotFoundError ''/missing'')
   \<and> validatePath ''bad.'' \<noteq> None
   \<and> createSymlink createVFS ''bad.'' ''/link''
       = (Inr (), createVFS \<lparr> root := VFSDirectory [(''link'', VFSSymlink ''bad.'')] \<rparr>)"
  by code_simp

section \<open>The operations at concrete inputs\<close>

lemma resolvePath_root:
  "resolvePath ''/'' =
     Inr \<lparr> fullPath = ''/'', parentPath = ''/'', name = [], segments = [], isRoot = True \<rparr>"
  by code_simp

lemma map_delete_all:
  "foldl (\<lambda>rt childName. removeChild childName rt) (VFSDirectory cs) names
     = VFSDirectory (filter (\<lambda>(k, _). k \<notin> set names) cs)"
proof (induction names arbitrary: cs)
  case Nil
  then show ?case by simp
next
  case (Cons n names)
  have "filter (\<lambda>(k, _). k \<notin> set names) (map_delete n cs)
          = filter (\<lambda>(k, _). k \<notin> set (n # names)) cs"
    unfolding map_delete_def by (induction cs) auto
  then show ?case using Cons [of "map_delete n cs"] by simp
qed

lemma remove_every_child:
  "foldl (\<lambda>rt childName. removeChild childName rt) (VFSDirectory cs) (map fst cs) = VFSDirectory []"
proof -
  have "filter (\<lambda>(k, _). k \<notin> set (map fst cs)) cs = []"
    by (force simp: filter_empty_conv)
  then show ?thesis by (simp add: map_delete_all)
qed

text \<open>
  Claim C10: on the root, \<open>deleteDirectory\<close> without \<open>recursive\<close> throws
  \<open>DirectoryNotEmpty\<close> whatever the root holds, also when it holds nothing, and leaves the
  file system as it was; with \<open>recursive\<close> it removes every child of the root and keeps
  the root itself, an empty directory.
\<close>

theorem deleteDirectory_root:
  "deleteDirectory (vfs \<lparr> root := VFSDirectory cs \<rparr>) ''/'' False
     = (Inl (DirectoryNotEmptyError ''/''), vfs \<lparr> root := VFSDirectory cs \<rparr>)
   \<and> deleteDirectory (vfs \<lparr> root := VFSDirectory cs \<rparr>) ''/'' True
     = (Inr (), vfs \<lparr> root := VFSDirectory [] \<rparr>)"
  by (simp add: deleteDirectory_def resolvePath_root remove_every_child)

text \<open>
  Claim C1, at the input where the code departs from it: the link \<open>/d/link\<close> has the
  relative target \<open>t\<close> and \<open>/d/t\<close> is a file, yet reading through the link finds nothing;
  once \<open>/t\<close> exists, reading through the link returns the bytes of \<open>/t\<close>. The target is
  resolved against the parent of the directory that holds the link.
\<close>

theorem relative_link_in_directory_not_found:
  "(let vfs1 = snd (writeFile createVFS ''/d/t'' [1] None);
        vfs2 = snd (createSymlink vfs1 ''t'' ''/d/link'');
        vfs3 = snd (writeFile vfs2 ''/t'' [2] None)
    in fst (createSymlink vfs1 ''t'' ''/d/link'') = Inr ()
       \<and> readFile vfs2 ''/d/t'' = Inr [1]
       \<and> readFile vfs2 ''/d/link'' = Inl (FileNotFoundError ''/d/link'')
       \<and> readFile vfs3 ''/d/link'' = Inr [2])"
  by code_simp

text \<open>
  Claim C4, at the input where the code departs from it: the links \<open>/d/a\<close> and \<open>/d/b\<close> have
  the relative targets \<open>b\<close> and \<open>a\<close>. Resolved against the directory \<open>/d\<close> that holds them, the
  targets are \<open>/d/b\<close> and \<open>/d/a\<close>, so each link leads to the other; yet resolving \<open>/d/a\<close> with
  link following returns no node and \<open>readFile\<close> throws \<open>FileNotFound\<close>, not \<open>SymlinkLoop\<close>, on
  either link.
\<close>

theorem relative_link_cycle_not_found:
  "(let vfs1 = snd (createSymlink createVFS ''b'' ''/d/a'');
        vfs2 = snd (createSymlink vfs1 ''a'' ''/d/b'')
    in fst (createSymlink createVFS ''b'' ''/d/a'') = Inr ()
       \<and> fst (createSymlink vfs1 ''a'' ''/d/b'') = Inr ()
       \<and> root vfs2
           = VFSDirectory [(''d'', VFSDirectory [(''a'', VFSSymlink ''b''), (''b'', VFSSymlink ''a'')])]
       \<and> readSymlink vfs2 ''/d/a'' = Inr ''b''
       \<and> readSymlink vfs2 ''/d/b'' = Inr ''a''
       \<and> join ''/d'' ''b'' = ''/d/b''
       \<and> join ''/d'' ''a'' = ''/d/a''
       \<and> resolve vfs2 ''/d/a'' True = Inr None
       \<and> readFile vfs2 ''/d/a'' = Inl (FileNotFoundError ''/d/a'')
       \<and> readFile vfs2 ''/d/b'' = Inl (FileNotFoundError ''/d/b''))"
  by code_simp

text \<open>
  Claim C2, at the input where the code departs from it: a snapshot holds
  \<open>/d/f.txt\<close>, the directory \<open>/d\<close> is then removed with its file, and \<open>diff\<close> from the snapshot
  to the live tree is empty: the file that is gone is not reported as deleted.
\<close>

theorem diff_misses_files_of_removed_directory:
  "(let vfs1 = snd (writeFile createVFS ''/d/f.txt'' [120] None);
        snapshotId = fst (createSnapshot vfs1);
        vfs2 = snd (createSnapshot vfs1);
        vfs3 = snd (deleteDirectory vfs2 ''/d'' True)
    in readFile vfs2 ''/d/f.txt'' = Inr [120]
       \<and> fst (deleteDirectory vfs2 ''/d'' True) = Inr ()
       \<and> readFile vfs3 ''/d/f.txt'' = Inl (FileNotFoundError ''/d/f.txt'')
       \<and> diff vfs3 (Some snapshotId) None = Inr [])"
  by code_simp

text \<open>
  Claim C6, at the input where the code departs from it: \<open>a.txt\<close> passes validation,
  writing to it succeeds, and reading it back throws \<open>FileNotFound\<close>.
\<close>

theorem write_then_read_relative_name_not_found:
  "fst (writeFile createVFS ''a.txt'' [1] None) = Inr ()
   \<and> readFile (snd (writeFile createVFS ''a.txt'' [1] None)) ''a.txt''
       = Inl (FileNotFoundError ''a.txt'')
   \<and> validatePath ''a.txt'' = None"
  by code_simp

text \<open>
  Claim C8, at the input where the code departs from it: with the working directory
  \<open>/\<close>, the pattern \<open>foo.txt\<close> matches the relative path \<open>foo.txt\<close> of the file \<open>/foo.txt\<close>, yet
  \<open>glob\<close> returns nothing for it, and returns the file for the pattern \<open>oo.txt\<close>.
\<close>

theorem glob_root_cwd_drops_first_character:
  "(let vfs1 = snd (writeFile createVFS ''/foo.txt'' [1] None)
    in regex_test (patternToRegex ''foo.txt'') ''foo.txt''
       \<and> glob 1 vfs1 ''foo.txt'' defaultGlobOptions = Some (Inr [])
       \<and> glob 1 vfs1 ''oo.txt'' defaultGlobOptions = Some (Inr [''/foo.txt'']))"
  by code_simp

section \<open>Snapshots in the object store\<close>

lemma reach_closed:
  assumes "a \<in> R"
    and "\<And>b obj nm c. b \<in> R \<Longrightarrow> cs b = Some obj \<Longrightarrow> (nm, c) \<in> set (entries_of obj) \<Longrightarrow> c \<in> R"
  shows "reach cs a \<subseteq> R"
proof
  fix x assume "x \<in> reach cs a"
  then show "x \<in> R" by induction (use assms in blast)+
qed

lemma reach_trans: "b \<in> reach cs a \<Longrightarrow> reach cs b \<subseteq> reach cs a"
  by (rule reach_closed) (auto intro: reach.intros)

lemma reach_frame_subset:
  assumes "\<And>x. x \<in> reach cs a \<Longrightarrow> cs' x = cs x"
  shows "reach cs' a \<subseteq> reach cs a"
proof (rule reach_closed)
  show "a \<in> reach cs a" by (rule reach.start)
next
  fix b obj nm c
  assume "b \<in> reach cs a" "cs' b = Some obj" "(nm, c) \<in> set (entries_of obj)"
  then show "c \<in> reach cs a" using assms reach.child by metis
qed

lemma reach_below_fresh:
  assumes "closed h" "a < fresh h"
  shows "reach (cells h) a \<subseteq> {..<fresh h}"
proof (rule reach_closed)
  show "a \<in> {..<fresh h}" using assms(2) by simp
next
  fix b obj nm c
  assume "cells h b = Some obj" "(nm, c) \<in> set (entries_of obj)"
  then show "c \<in> {..<fresh h}" using assms(1) unfolding closed_def by fastforce
qed

lemma represents_frame:
  "represents cs a t \<Longrightarrow> (\<And>x. x \<in> reach cs a \<Longrightarrow> cs' x = cs x) \<Longrightarrow> represents cs' a t"
  "represents_entries cs entries below
     \<Longrightarrow> (\<And>nm c x. (nm, c) \<in> set entries \<Longrightarrow> x \<in> reach cs c \<Longrightarrow> cs' x = cs x)
     \<Longrightarrow> represents_entries cs' entries below"
proof (induction cs a t and cs entries below rule: represents_represents_entries.induct)
  case (1 cs a s content)
  then show ?case using reach.start [of a cs] by simp
next
  case (2 cs a s target)
  then show ?case using reach.start [of a cs] by simp
next
  case (3 cs a s below)
  from "3.prems"(1) obtain entries where cell: "cs a = Some (DirectoryObject s entries)"
    and below: "represents_entries cs entries below"
    by (auto split: option.splits object.splits)
  have same: "cs' a = cs a" using "3.prems"(2) reach.start by blast
  have "cs' x = cs x" if "(nm, c) \<in> set entries" "x \<in> reach cs c" for nm c x
  proof -
    have "c \<in> reach cs a"
      using reach.child [of a cs a "DirectoryObject s entries" nm c] reach.start cell that(1)
      by simp
    then show ?thesis using reach_trans that(2) "3.prems"(2) by blast
  qed
  then have "represents_entries cs' entries below"
    using "3.IH" [OF cell refl below] by blast
  then show ?case using cell same by simp
next
  case (4 cs)
  then show ?case by simp
next
  case (5 cs nm a entries nm' t below)
  then show ?case by simp blast
next
  case (6 cs x below)
  then show ?case by simp
next
  case (7 cs e entries)
  then show ?case by simp
qed

lemma closed_none: "closed h \<Longrightarrow> fresh h \<le> x \<Longrightarrow> cells h x = None"
  unfolding closed_def by (cases "cells h x") (auto simp: not_less [symmetric])

lemma closedI:
  assumes "rootAddress h < fresh h"
    and "\<And>a obj nm c. cells h a = Some obj \<Longrightarrow> a < fresh h"
    and "\<And>a obj nm c. cells h a = Some obj \<Longrightarrow> (nm, c) \<in> set (entries_of obj) \<Longrightarrow> c < fresh h"
  shows "closed h"
  unfolding closed_def using assms by blast

lemma closed_entries:
  "closed h \<Longrightarrow> cells h a = Some obj \<Longrightarrow> (nm, c) \<in> set (entries_of obj) \<Longrightarrow> c < fresh h"
  unfolding closed_def by blast

lemma closed_cell: "closed h \<Longrightarrow> cells h a = Some obj \<Longrightarrow> a < fresh h"
  unfolding closed_def by blast

lemma extendsI:
  assumes "fresh h \<le> fresh h'" "rootAddress h' = rootAddress h"
    and "snapshotRoots h' = snapshotRoots h" "counter h' = counter h"
    and "\<And>x. x < fresh h \<Longrightarrow> cells h' x = cells h x"
    and "\<And>x obj. fresh h \<le> x \<Longrightarrow> cells h' x = Some obj \<Longrightarrow> x < fresh h'"
    and "\<And>x obj nm c. fresh h \<le> x \<Longrightarrow> cells h' x = Some obj \<Longrightarrow> (nm, c) \<in> set (entries_of obj)
           \<Longrightarrow> fresh h \<le> c \<and> c < fresh h'"
  shows "extends h h'"
  unfolding extends_def using assms by blast

lemma extends_same: "extends h h' \<Longrightarrow> x < fresh h \<Longrightarrow> cells h' x = cells h x"
  unfolding extends_def by blast

lemma extends_fresh: "extends h h' \<Longrightarrow> fresh h \<le> fresh h'"
  unfolding extends_def by blast

lemma extends_new_cell: "extends h h' \<Longrightarrow> fresh h \<le> x \<Longrightarrow> cells h' x = Some obj \<Longrightarrow> x < fresh h'"
  unfolding extends_def by blast

lemma extends_new_entries:
  "extends h h' \<Longrightarrow> fresh h \<le> x \<Longrightarrow> cells h' x = Some obj \<Longrightarrow> (nm, c) \<in> set (entries_of obj)
     \<Longrightarrow> fresh h \<le> c \<and> c < fresh h'"
  unfolding extends_def by blast

lemma extends_fields:
  "extends h h' \<Longrightarrow> rootAddress h' = rootAddress h \<and> snapshotRoots h' = snapshotRoots h
     \<and> counter h' = counter h"
  unfolding extends_def by blast

lemma extends_refl: "closed h \<Longrightarrow> extends h h"
  by (rule extendsI) (auto dest: closed_none)

lemma extends_closed:
  assumes "closed h" "extends h h'"
  shows "closed h'"
proof (rule closedI)
  show "rootAddress h' < fresh h'"
    using assms extends_fields [OF assms(2)] extends_fresh [OF assms(2)]
    by (simp add: closed_def)
next
  fix a obj assume cell: "cells h' a = Some obj"
  show "a < fresh h'"
  proof (cases "a < fresh h")
    case True
    then show ?thesis using extends_fresh [OF assms(2)] by simp
  next
    case False
    then show ?thesis using extends_new_cell [OF assms(2) _ cell] by simp
  qed
next
  fix a obj nm c assume cell: "cells h' a = Some obj" and e: "(nm, c) \<in> set (entries_of obj)"
  show "c < fresh h'"
  proof (cases "a < fresh h")
    case True
    then have "cells h a = Some obj" using extends_same [OF assms(2)] cell by simp
    then have "c < fresh h" using closed_entries [OF assms(1)] e by blast
    then show ?thesis using extends_fresh [OF assms(2)] by simp
  next
    case False
    then show ?thesis using extends_new_entries [OF assms(2) _ cell e] by simp
  qed
qed

lemma extends_trans:
  assumes "extends h h1" "extends h1 h2"
  shows "extends h h2"
proof (rule extendsI)
  show "fresh h \<le> fresh h2"
    using extends_fresh [OF assms(1)] extends_fresh [OF assms(2)] by simp
  show "rootAddress h2 = rootAddress h" "snapshotRoots h2 = snapshotRoots h" "counter h2 = counter h"
    using extends_fields [OF assms(1)] extends_fields [OF assms(2)] by simp_all
next
  fix x assume "x < fresh h"
  then show "cells h2 x = cells h x"
    using extends_same [OF assms(1)] extends_same [OF assms(2)] extends_fresh [OF assms(1)]
    by simp
next
  fix x obj assume x: "fresh h \<le> x" and cell: "cells h2 x = Some obj"
  show "x < fresh h2"
  proof (cases "x < fresh h1")
    case True
    then show ?thesis using extends_fresh [OF assms(2)] by simp
  next
    case False
    then show ?thesis using extends_new_cell [OF assms(2) _ cell] by simp
  qed
next
  fix x obj nm c
  assume x: "fresh h \<le> x" and cell: "cells h2 x = Some obj" and e: "(nm, c) \<in> set (entries_of obj)"
  show "fresh h \<le> c \<and> c < fresh h2"
  proof (cases "x < fresh h1")
    case True
    then have "cells h1 x = Some obj" using extends_same [OF assms(2)] cell by simp
    then have "fresh h \<le> c \<and> c < fresh h1" using extends_new_entries [OF assms(1) x _ e] by simp
    then show ?thesis using extends_fresh [OF assms(2)] by simp
  next
    case False
    then have "fresh h1 \<le> c \<and> c < fresh h2" using extends_new_entries [OF assms(2) _ cell e] by simp
    then show ?thesis using extends_fresh [OF assms(1)] by simp
  qed
qed

lemma extends_new_object:
  assumes "closed h" "entries_of obj = []"
  shows "extends h (snd (new_object obj h))"
proof (rule extendsI)
  fix x obj' assume "fresh h \<le> x" "cells (snd (new_object obj h)) x = Some obj'"
  then have "x = fresh h \<and> obj' = obj"
    using closed_none [OF assms(1), of x] by (auto simp: new_object_def split: if_splits)
  then show "x < fresh (snd (new_object obj h))"
    and "\<And>nm c. (nm, c) \<in> set (entries_of obj')
            \<Longrightarrow> fresh h \<le> c \<and> c < fresh (snd (new_object obj h))"
    using assms(2) by (simp_all add: new_object_def)
qed (simp_all add: new_object_def)

lemma fresh_new_object [simp]: "fresh (snd (new_object obj h)) = Suc (fresh h)"
  by (simp add: new_object_def)

lemma fst_new_object [simp]: "fst (new_object obj h) = fresh h"
  by (simp add: new_object_def)

lemma cells_new_object [simp]: "cells (snd (new_object obj h)) = (cells h)(fresh h \<mapsto> obj)"
  by (simp add: new_object_def)

lemma reach_new:
  assumes "extends h h'" "fresh h \<le> c" "c < fresh h'"
  shows "reach (cells h') c \<subseteq> {fresh h..<fresh h'}"
proof (rule reach_closed)
  show "c \<in> {fresh h..<fresh h'}" using assms by simp
next
  fix b obj nm d
  assume "b \<in> {fresh h..<fresh h'}" "cells h' b = Some obj" "(nm, d) \<in> set (entries_of obj)"
  then show "d \<in> {fresh h..<fresh h'}"
    using extends_new_entries [OF assms(1), of b obj nm d] by simp
qed

lemma clone_entries_ok:
  assumes obj: "\<And>h a a' h'. closed h \<Longrightarrow> clone_object fuel h a = Some (a', h') \<Longrightarrow> cloned_ok h a' h'"
  shows "closed h \<Longrightarrow> clone_entries fuel h entries = Some (cloned, h')
           \<Longrightarrow> cloned_entries_ok h entries cloned h'"
proof (induction entries arbitrary: h cloned h')
  case Nil
  then show ?case by (simp add: cloned_entries_ok_def extends_refl)
next
  case (Cons e entries)
  obtain nm a where e: "e = (nm, a)" by (cases e)
  from Cons.prems(2) e obtain a' h1 rest where
    first: "clone_object fuel h a = Some (a', h1)"
    and others: "clone_entries fuel h1 entries = Some (rest, h')"
    and cloned: "cloned = (nm, a') # rest"
    by (auto split: option.splits)
  have ok1: "cloned_ok h a' h1" using obj [OF Cons.prems(1) first] .
  then have closed1: "closed h1" using extends_closed Cons.prems(1) by (simp add: cloned_ok_def)
  have ok2: "cloned_entries_ok h1 entries rest h'" using Cons.IH [OF closed1 others] .
  have "extends h h'" using ok1 ok2 extends_trans by (auto simp: cloned_ok_def cloned_entries_ok_def)
  moreover have "fresh h \<le> fresh h1" "fresh h1 \<le> fresh h'"
    using ok1 ok2 extends_fresh by (auto simp: cloned_ok_def cloned_entries_ok_def)
  ultimately show ?case
    using ok1 ok2 cloned e by (fastforce simp: cloned_ok_def cloned_entries_ok_def)
qed

lemma clone_object_ok:
  "closed h \<Longrightarrow> clone_object fuel h a = Some (a', h') \<Longrightarrow> cloned_ok h a' h'"
proof (induction fuel arbitrary: h a a' h')
  case 0
  then show ?case by simp
next
  case (Suc fuel)
  from Suc.prems(2) obtain obj where cell: "cells h a = Some obj"
    by (auto split: option.splits)
  show ?case
  proof (cases obj)
    case (FileObject s content)
    then have "a' = fresh h" "h' = snd (new_object (FileObject s content) h)"
      using Suc.prems(2) cell by (auto simp: new_object_def)
    then show ?thesis using extends_new_object [OF Suc.prems(1)] by (simp add: cloned_ok_def)
  next
    case (SymlinkObject s target)
    then have "a' = fresh h" "h' = snd (new_object (SymlinkObject s target) h)"
      using Suc.prems(2) cell by (auto simp: new_object_def)
    then show ?thesis using extends_new_object [OF Suc.prems(1)] by (simp add: cloned_ok_def)
  next
    case (DirectoryObject s entries)
    define h1 where "h1 = snd (new_object (DirectoryObject s []) h)"
    from Suc.prems(2) cell DirectoryObject obtain cloned h2 where
      below: "clone_entries fuel h1 entries = Some (cloned, h2)"
      and a': "a' = fresh h"
      and h': "h' = h2 \<lparr> cells := (cells h2)(fresh h \<mapsto> DirectoryObject s cloned) \<rparr>"
      by (auto simp: h1_def split: option.splits)
    have ext1: "extends h h1" unfolding h1_def using extends_new_object [OF Suc.prems(1)] by simp
    have closed1: "closed h1" using extends_closed [OF Suc.prems(1) ext1] .
    have ok: "cloned_entries_ok h1 entries cloned h2"
      using clone_entries_ok [of fuel, OF Suc.IH closed1 below] .
    have fresh1: "fresh h1 = Suc (fresh h)" by (simp add: h1_def)
    have ext2: "extends h h2" using extends_trans [OF ext1] ok by (simp add: cloned_entries_ok_def)
    have lt: "fresh h < fresh h2"
      using ok fresh1 extends_fresh [of h1 h2] by (simp add: cloned_entries_ok_def)
    have "extends h h'"
    proof (rule extendsI)
      show "fresh h \<le> fresh h'" "rootAddress h' = rootAddress h"
        "snapshotRoots h' = snapshotRoots h" "counter h' = counter h"
        using extends_fields [OF ext2] extends_fresh [OF ext2] h' by simp_all
    next
      fix x assume "x < fresh h"
      then show "cells h' x = cells h x" using extends_same [OF ext2] h' by simp
    next
      fix x obj assume x: "fresh h \<le> x" and c: "cells h' x = Some obj"
      show "x < fresh h'"
      proof (cases "x = fresh h")
        case True
        then show ?thesis using lt h' by simp
      next
        case False
        then have "cells h2 x = Some obj" using c h' by simp
        then show ?thesis using extends_new_cell [OF ext2 x] h' by simp
      qed
    next
      fix x obj nm c
      assume x: "fresh h \<le> x" and c: "cells h' x = Some obj" and e: "(nm, c) \<in> set (entries_of obj)"
      show "fresh h \<le> c \<and> c < fresh h'"
      proof (cases "x = fresh h")
        case True
        then have "obj = DirectoryObject s cloned" using c h' by simp
        then have "(nm, c) \<in> set cloned" using e by simp
        then have "fresh h1 \<le> c \<and> c < fresh h2" using ok by (auto simp: cloned_entries_ok_def)
        then show ?thesis using fresh1 h' by simp
      next
        case False
        then have "cells h2 x = Some obj" using c h' by simp
        then show ?thesis using extends_new_entries [OF ext2 x _ e] h' by simp
      qed
    qed
    then show ?thesis using a' lt h' by (simp add: cloned_ok_def)
  qed
qed

lemma clone_entries_ok':
  "closed h \<Longrightarrow> clone_entries fuel h entries = Some (cloned, h')
     \<Longrightarrow> cloned_entries_ok h entries cloned h'"
  by (rule clone_entries_ok) (rule clone_object_ok)

lemma represents_extends:
  assumes "closed h" "extends h h'" "a < fresh h" "represents (cells h) a t"
  shows "represents (cells h') a t"
proof (rule represents_frame(1) [OF assms(4)])
  fix x assume "x \<in> reach (cells h) a"
  then have "x < fresh h" using reach_below_fresh [OF assms(1,3)] by blast
  then show "cells h' x = cells h x" using extends_same [OF assms(2)] by simp
qed

lemma represents_entries_extends:
  assumes "closed h" "extends h h'" "\<forall>(nm, c) \<in> set entries. c < fresh h"
    and "represents_entries (cells h) entries below"
  shows "represents_entries (cells h') entries below"
proof (rule represents_frame(2) [OF assms(4)])
  fix nm c x assume "(nm, c) \<in> set entries" "x \<in> reach (cells h) c"
  then have "x < fresh h" using reach_below_fresh [OF assms(1), of c] assms(3) by blast
  then show "cells h' x = cells h x" using extends_same [OF assms(2)] by simp
qed

lemma clone_entries_represents:
  assumes obj: "\<forall>h a t. closed h \<longrightarrow> a < fresh h \<longrightarrow> represents (cells h) a t
      \<longrightarrow> height t \<le> fuel
      \<longrightarrow> (\<exists>a' h'. clone_object fuel h a = Some (a', h') \<and> represents (cells h') a' t)"
  shows "closed h \<Longrightarrow> \<forall>(nm, c) \<in> set entries. c < fresh h
    \<Longrightarrow> represents_entries (cells h) entries below \<Longrightarrow> height_entries below \<le> fuel
    \<Longrightarrow> \<exists>cloned h'. clone_entries fuel h entries = Some (cloned, h')
          \<and> represents_entries (cells h') cloned below"
proof (induction entries arbitrary: h below)
  case Nil
  then show ?case by (cases below) auto
next
  case (Cons e entries)
  obtain nm a where e: "e = (nm, a)" by (cases e)
  from Cons.prems(3) e obtain t rest where below: "below = (nm, t) # rest"
    and rep: "represents (cells h) a t" and reps: "represents_entries (cells h) entries rest"
    by (cases below) auto
  have a: "a < fresh h" using Cons.prems(2) e by simp
  have "height t \<le> fuel" using Cons.prems(4) below by simp
  with obj Cons.prems(1) a rep obtain a' h1 where
    first: "clone_object fuel h a = Some (a', h1)" and rep1: "represents (cells h1) a' t"
    by blast
  have ok1: "cloned_ok h a' h1" using clone_object_ok [OF Cons.prems(1) first] .
  then have ext1: "extends h h1" by (simp add: cloned_ok_def)
  have closed1: "closed h1" using extends_closed [OF Cons.prems(1) ext1] .
  have below0: "\<forall>(nm, c) \<in> set entries. c < fresh h" using Cons.prems(2) by simp
  have below1: "\<forall>(nm, c) \<in> set entries. c < fresh h1"
    using below0 extends_fresh [OF ext1] by fastforce
  have reps1: "represents_entries (cells h1) entries rest"
    using represents_entries_extends [OF Cons.prems(1) ext1 below0 reps] .
  have "height_entries rest \<le> fuel" using Cons.prems(4) below by simp
  from Cons.IH [OF closed1 below1 reps1 this] obtain cloned h2 where
    others: "clone_entries fuel h1 entries = Some (cloned, h2)"
    and reps2: "represents_entries (cells h2) cloned rest"
    by blast
  have ext2: "extends h1 h2"
    using clone_entries_ok' [OF closed1 others] by (simp add: cloned_entries_ok_def)
  have "a' < fresh h1" using ok1 by (simp add: cloned_ok_def)
  then have "represents (cells h2) a' t" using represents_extends [OF closed1 ext2 _ rep1] by simp
  then show ?case using first others reps2 below e by simp
qed

lemma clone_object_represents:
  "closed h \<Longrightarrow> a < fresh h \<Longrightarrow> represents (cells h) a t \<Longrightarrow> height t \<le> fuel
     \<Longrightarrow> \<exists>a' h'. clone_object fuel h a = Some (a', h') \<and> represents (cells h') a' t"
proof (induction fuel arbitrary: h a t)
  case 0
  then show ?case by (cases t) auto
next
  case (Suc fuel)
  show ?case
  proof (cases t)
    case (FileTree s content)
    then show ?thesis using Suc.prems(3) by (simp add: new_object_def)
  next
    case (SymlinkTree s target)
    then show ?thesis using Suc.prems(3) by (simp add: new_object_def)
  next
    case (DirectoryTree s below)
    with Suc.prems(3) obtain entries where cell: "cells h a = Some (DirectoryObject s entries)"
      and reps: "represents_entries (cells h) entries below"
      by (auto split: option.splits object.splits)
    define h1 where "h1 = snd (new_object (DirectoryObject s []) h)"
    have ext1: "extends h h1" unfolding h1_def using extends_new_object [OF Suc.prems(1)] by simp
    have closed1: "closed h1" using extends_closed [OF Suc.prems(1) ext1] .
    have fresh1: "fresh h1 = Suc (fresh h)" by (simp add: h1_def)
    have entries: "\<forall>(nm, c) \<in> set entries. c < fresh h"
      using closed_entries [OF Suc.prems(1) cell] by auto
    then have entries1: "\<forall>(nm, c) \<in> set entries. c < fresh h1"
      using fresh1 by fastforce
    have reps1: "represents_entries (cells h1) entries below"
      using represents_entries_extends [OF Suc.prems(1) ext1 entries reps] .
    have hb: "height_entries below \<le> fuel" using Suc.prems(4) DirectoryTree by simp
    have ih: "\<forall>h a t. closed h \<longrightarrow> a < fresh h \<longrightarrow> represents (cells h) a t
        \<longrightarrow> height t \<le> fuel
        \<longrightarrow> (\<exists>a' h'. clone_object fuel h a = Some (a', h') \<and> represents (cells h') a' t)"
      using Suc.IH by blast
    obtain cloned h2 where below: "clone_entries fuel h1 entries = Some (cloned, h2)"
      and reps2: "represents_entries (cells h2) cloned below"
      using clone_entries_represents [OF ih closed1 entries1 reps1 hb] by blast
    define h' where "h' = h2 \<lparr> cells := (cells h2)(fresh h \<mapsto> DirectoryObject s cloned) \<rparr>"
    have result: "clone_object (Suc fuel) h a = Some (fresh h, h')"
      using cell below by (simp add: h1_def h'_def)
    have ok: "cloned_entries_ok h1 entries cloned h2"
      using clone_entries_ok' [OF closed1 below] .
    then have ext2: "extends h1 h2" by (simp add: cloned_entries_ok_def)
    have "represents_entries (cells h') cloned below"
    proof (rule represents_frame(2) [OF reps2])
      fix nm c x assume c: "(nm, c) \<in> set cloned" and x: "x \<in> reach (cells h2) c"
      have "fresh h1 \<le> c \<and> c < fresh h2" using ok c by (auto simp: cloned_entries_ok_def)
      then have "x \<in> {fresh h1..<fresh h2}" using reach_new [OF ext2] x by blast
      then have "x \<noteq> fresh h" using fresh1 by simp
      then show "cells h' x = cells h2 x" by (simp add: h'_def)
    qed
    then have "represents (cells h') (fresh h) t"
      using DirectoryTree by (simp add: h'_def)
    then show ?thesis using result by blast
  qed
qed

lemma entries_call: "set (entries_of (call m now obj)) \<subseteq> set (entries_of obj)"
  by (cases "(m, now, obj)" rule: call.cases) (auto simp: map_delete_def)

lemma is_directory_call: "is_directory (Some (call m now obj)) = is_directory (Some obj)"
  by (cases "(m, now, obj)" rule: call.cases) auto

lemma set_map_set: "set (map_set k v xs) \<subseteq> insert (k, v) (set xs)"
  by (induction xs) (auto split: if_splits)

lemma entries_addChild:
  "set (entries_of (addChild_object nm a now obj)) \<subseteq> insert (nm, a) (set (entries_of obj))"
  by (cases obj) (auto dest: subsetD [OF set_map_set])

lemma is_directory_addChild:
  "is_directory (Some (addChild_object nm a now obj)) = is_directory (Some obj)"
  by (cases obj) auto

lemma changes_at_update_cell:
  assumes "\<And>obj. set (entries_of (f obj)) \<subseteq> set (entries_of obj) \<union> extra"
    and "\<And>obj. is_directory (Some (f obj)) = is_directory (Some obj)"
  shows "changes_at h a extra (update_cell a f h)"
  using assms by (cases "cells h a") (auto simp: changes_at_def update_cell_def)

lemma changes_at_refl: "changes_at h a extra h"
  by (auto simp: changes_at_def)

lemma changes_at_trans:
  assumes "changes_at h a extra h1" "changes_at h1 a extra h2"
  shows "changes_at h a extra h2"
proof -
  have "\<exists>obj. cells h a = Some obj \<and> set (entries_of obj') \<subseteq> set (entries_of obj) \<union> extra"
    if "cells h2 a = Some obj'" for obj'
  proof -
    from assms(2) that obtain obj1 where
      "cells h1 a = Some obj1" "set (entries_of obj') \<subseteq> set (entries_of obj1) \<union> extra"
      unfolding changes_at_def by blast
    moreover from assms(1) this(1) obtain obj where
      "cells h a = Some obj" "set (entries_of obj1) \<subseteq> set (entries_of obj) \<union> extra"
      unfolding changes_at_def by blast
    ultimately show ?thesis by blast
  qed
  then show ?thesis using assms unfolding changes_at_def by auto
qed

lemma changes_at_foldl:
  assumes "\<And>h x. x \<in> set xs \<Longrightarrow> changes_at h a extra (g h x)"
  shows "changes_at h a extra (foldl g h xs)"
  using assms
proof (induction xs arbitrary: h)
  case Nil
  then show ?case by (simp add: changes_at_refl)
next
  case (Cons x xs)
  have "changes_at h a extra (g h x)" using Cons.prems by simp
  moreover have "changes_at (g h x) a extra (foldl g (g h x) xs)"
    using Cons.IH Cons.prems by simp
  ultimately show ?case using changes_at_trans by fastforce
qed

lemma changes_at_closed:
  assumes "closed h" "changes_at h a extra h'" "\<forall>(nm, c) \<in> extra. c < fresh h"
  shows "closed h'"
proof (rule closedI)
  show "rootAddress h' < fresh h'" using assms(1,2) by (simp add: closed_def changes_at_def)
next
  fix x obj assume cell: "cells h' x = Some obj"
  then have "cells h x \<noteq> None" using assms(2) unfolding changes_at_def by (cases "x = a") auto
  then show "x < fresh h'" using closed_cell [OF assms(1)] assms(2) by (auto simp: changes_at_def)
next
  fix x obj nm c assume cell: "cells h' x = Some obj" and e: "(nm, c) \<in> set (entries_of obj)"
  have "c < fresh h"
  proof (cases "x = a")
    case True
    then obtain old where "cells h a = Some old" "set (entries_of obj) \<subseteq> set (entries_of old) \<union> extra"
      using assms(2) cell unfolding changes_at_def by blast
    then show ?thesis using e closed_entries [OF assms(1)] assms(3) by blast
  next
    case False
    then have "cells h x = Some obj" using assms(2) cell by (simp add: changes_at_def)
    then show ?thesis using closed_entries [OF assms(1) _ e] by simp
  qed
  then show "c < fresh h'" using assms(2) by (simp add: changes_at_def)
qed

lemma changes_at_reach:
  assumes "changes_at h a extra h'" "a \<in> reach (cells h) r"
  shows "reach (cells h') r \<subseteq> reach (cells h) r \<union> (\<Union>(nm, c) \<in> extra. reach (cells h') c)"
proof (rule reach_closed)
  show "r \<in> reach (cells h) r \<union> (\<Union>(nm, c) \<in> extra. reach (cells h') c)"
    by (simp add: reach.start)
next
  fix b obj nm c
  assume b: "b \<in> reach (cells h) r \<union> (\<Union>(nm, c) \<in> extra. reach (cells h') c)"
    and cell: "cells h' b = Some obj" and e: "(nm, c) \<in> set (entries_of obj)"
  from b show "c \<in> reach (cells h) r \<union> (\<Union>(nm, c) \<in> extra. reach (cells h') c)"
  proof
    assume old: "b \<in> reach (cells h) r"
    show ?thesis
    proof (cases "b = a")
      case True
      then obtain old_obj where oc: "cells h a = Some old_obj"
        and sub: "set (entries_of obj) \<subseteq> set (entries_of old_obj) \<union> extra"
        using assms(1) cell unfolding changes_at_def by blast
      from sub e have "(nm, c) \<in> set (entries_of old_obj) \<or> (nm, c) \<in> extra" by blast
      then show ?thesis
      proof
        assume "(nm, c) \<in> set (entries_of old_obj)"
        then show ?thesis using reach.child [of a "cells h" r old_obj nm c] assms(2) oc by blast
      next
        assume "(nm, c) \<in> extra"
        then show ?thesis using reach.start [of c "cells h'"] by blast
      qed
    next
      case False
      then have "cells h b = Some obj" using assms(1) cell by (simp add: changes_at_def)
      then show ?thesis using reach.child [of b "cells h" r obj nm c] old e by blast
    qed
  next
    assume "b \<in> (\<Union>(nm, c) \<in> extra. reach (cells h') c)"
    then obtain nm0 c0 where "(nm0, c0) \<in> extra" "b \<in> reach (cells h') c0" by blast
    then show ?thesis using reach.child [of b "cells h'" c0 obj nm c] cell e by blast
  qed
qed

text \<open>A change at an object outside a snapshot keeps the snapshot.\<close>

lemma changes_at_kept:
  assumes "kept h snapshotId stored t" "changes_at h a extra h'"
    and "a \<in> reach (cells h) (rootAddress h)"
    and "\<forall>(nm, c) \<in> extra. c < fresh h \<and> reach (cells h') c \<inter> reach (cells h) stored = {}"
  shows "kept h' snapshotId stored t \<and> (\<forall>x \<in> reach (cells h) stored. cells h' x = cells h x)"
proof -
  have cl: "closed h" and dir: "is_directory (cells h (rootAddress h))"
    and reg: "map_of (snapshotRoots h) snapshotId = Some stored"
    and st: "stored < fresh h" and rep: "represents (cells h) stored t"
    and disj: "reach (cells h) (rootAddress h) \<inter> reach (cells h) stored = {}"
    using assms(1) by (auto simp: kept_def)
  have "a \<notin> reach (cells h) stored" using assms(3) disj by blast
  then have same: "\<And>x. x \<in> reach (cells h) stored \<Longrightarrow> cells h' x = cells h x"
    using assms(2) unfolding changes_at_def by metis
  have sub: "reach (cells h') stored \<subseteq> reach (cells h) stored"
    using reach_frame_subset [of "cells h" stored "cells h'"] same by blast
  have "closed h'" using changes_at_closed [OF cl assms(2)] assms(4) by fastforce
  moreover have "is_directory (cells h' (rootAddress h'))"
  proof (cases "rootAddress h = a")
    case True
    then show ?thesis using assms(2) dir by (simp add: changes_at_def)
  next
    case False
    then show ?thesis using assms(2) dir by (simp add: changes_at_def)
  qed
  moreover have "map_of (snapshotRoots h') snapshotId = Some stored" "stored < fresh h'"
    using assms(2) reg st by (simp_all add: changes_at_def)
  moreover have "represents (cells h') stored t"
    using represents_frame(1) [OF rep] same by blast
  moreover have "reach (cells h') (rootAddress h') \<inter> reach (cells h') stored = {}"
  proof -
    have "rootAddress h' = rootAddress h" using assms(2) by (simp add: changes_at_def)
    then have "reach (cells h') (rootAddress h')
        \<subseteq> reach (cells h) (rootAddress h) \<union> (\<Union>(nm, c) \<in> extra. reach (cells h') c)"
      using changes_at_reach [OF assms(2,3)] by simp
    moreover have "(\<Union>(nm, c) \<in> extra. reach (cells h') c) \<inter> reach (cells h) stored = {}"
      using assms(4) by blast
    ultimately show ?thesis using disj sub by blast
  qed
  ultimately show ?thesis using same by (simp add: kept_def)
qed

lemma reach_frame:
  assumes "\<And>x. x \<in> reach cs a \<Longrightarrow> cs' x = cs x"
  shows "reach cs' a = reach cs a"
proof
  show "reach cs' a \<subseteq> reach cs a" using reach_frame_subset [of cs a cs'] assms by blast
  show "reach cs a \<subseteq> reach cs' a"
  proof
    fix x assume "x \<in> reach cs a"
    then show "x \<in> reach cs' a"
    proof induction
      case start
      then show ?case by (rule reach.start)
    next
      case (child b obj nm c)
      then have "cs' b = Some obj" using assms by simp
      then show ?case using reach.child [of b cs' a obj nm c] child by blast
    qed
  qed
qed

lemma reach_childless:
  assumes "cs a = Some obj" "entries_of obj = []"
  shows "reach cs a = {a}"
proof
  show "reach cs a \<subseteq> {a}" by (rule reach_closed) (use assms in auto)
  show "{a} \<subseteq> reach cs a" by (simp add: reach.start)
qed

lemma childless_entries: "childless obj \<Longrightarrow> entries_of obj = []"
  by (cases obj) auto

lemma extends_kept:
  assumes "kept h snapshotId stored t" "extends h h'"
  shows "kept h' snapshotId stored t"
    and "reach (cells h') (rootAddress h) = reach (cells h) (rootAddress h)"
    and "reach (cells h') stored = reach (cells h) stored"
    and "\<forall>x \<in> reach (cells h) stored. cells h' x = cells h x"
proof -
  have cl: "closed h" and dir: "is_directory (cells h (rootAddress h))"
    and reg: "map_of (snapshotRoots h) snapshotId = Some stored"
    and st: "stored < fresh h" and rep: "represents (cells h) stored t"
    and disj: "reach (cells h) (rootAddress h) \<inter> reach (cells h) stored = {}"
    using assms(1) by (auto simp: kept_def)
  have root: "rootAddress h < fresh h" using cl by (simp add: closed_def)
  have same_root: "\<And>x. x \<in> reach (cells h) (rootAddress h) \<Longrightarrow> cells h' x = cells h x"
    using reach_below_fresh [OF cl root] extends_same [OF assms(2)] by blast
  have same_stored: "\<And>x. x \<in> reach (cells h) stored \<Longrightarrow> cells h' x = cells h x"
    using reach_below_fresh [OF cl st] extends_same [OF assms(2)] by blast
  show r1: "reach (cells h') (rootAddress h) = reach (cells h) (rootAddress h)"
    using reach_frame [of "cells h" "rootAddress h" "cells h'"] same_root by blast
  show r2: "reach (cells h') stored = reach (cells h) stored"
    using reach_frame [of "cells h" stored "cells h'"] same_stored by blast
  show "\<forall>x \<in> reach (cells h) stored. cells h' x = cells h x" using same_stored by blast
  have "cells h' (rootAddress h) = cells h (rootAddress h)"
    using extends_same [OF assms(2) root] .
  then show "kept h' snapshotId stored t"
    using extends_closed [OF cl assms(2)] extends_fields [OF assms(2)] extends_fresh [OF assms(2)]
      dir reg st represents_extends [OF cl assms(2) st rep] r1 r2 disj
    by (simp add: kept_def)
qed

lemma live_step_kept:
  assumes "kept h snapshotId stored t" "live_step h h'"
  shows "kept h' snapshotId stored t \<and> (\<forall>x \<in> reach (cells h) stored. cells h' x = cells h x)"
  using assms(2)
proof cases
  case (mutator_call a m now)
  have "changes_at h a {} h'"
    unfolding mutator_call(1)
    by (rule changes_at_update_cell) (use entries_call is_directory_call in auto)
  then show ?thesis using changes_at_kept [OF assms(1) _ mutator_call(2)] by simp
next
  case (add_new_child d obj nm now)
  define h1 where "h1 = snd (new_object obj h)"
  have cl: "closed h" and st: "stored < fresh h" using assms(1) by (auto simp: kept_def)
  have root: "rootAddress h < fresh h" using cl by (simp add: closed_def)
  have ext: "extends h h1"
    unfolding h1_def using extends_new_object [OF cl childless_entries] add_new_child(3) by simp
  note k1 = extends_kept [OF assms(1) ext]
  have root1: "rootAddress h1 = rootAddress h" using extends_fields [OF ext] by simp
  have d1: "d \<in> reach (cells h1) (rootAddress h1)" using k1(2) add_new_child(2) root1 by simp
  have dlt: "d < fresh h" using reach_below_fresh [OF cl root] add_new_child(2) by blast
  have ch: "changes_at h1 d {(nm, fresh h)} h'"
    unfolding add_new_child(1) h1_def [symmetric]
    by (rule changes_at_update_cell) (use entries_addChild is_directory_addChild in auto)
  have "cells h' (fresh h) = Some obj"
    using ch dlt unfolding changes_at_def h1_def by (simp add: new_object_def)
  then have "reach (cells h') (fresh h) = {fresh h}"
    using reach_childless childless_entries add_new_child(3) by blast
  moreover have "fresh h \<notin> reach (cells h1) stored"
    using k1(3) reach_below_fresh [OF cl st] by auto
  moreover have "fresh h < fresh h1" by (simp add: h1_def)
  ultimately have "\<forall>(nm, c) \<in> {(nm, fresh h)}.
      c < fresh h1 \<and> reach (cells h') c \<inter> reach (cells h1) stored = {}"
    by simp
  from changes_at_kept [OF k1(1) ch d1 this]
  show ?thesis using k1(3,4) by simp
qed

lemma map_delete_absent: "map_of xs k = None \<Longrightarrow> map_delete k xs = xs"
  by (induction xs) (auto simp: map_delete_def split: if_splits)

lemma remove_children_cell:
  "cells h r = Some (DirectoryObject s entries)
     \<Longrightarrow> \<exists>s'. cells (foldl (\<lambda>h' nm. update_cell r (call (RemoveChild nm) now) h') h names) r
          = Some (DirectoryObject s' (filter (\<lambda>(k, _). k \<notin> set names) entries))"
proof (induction names arbitrary: h s entries)
  case Nil
  then show ?case by simp
next
  case (Cons n names)
  have "\<exists>s1. cells (update_cell r (call (RemoveChild n) now) h) r
      = Some (DirectoryObject s1 (map_delete n entries))"
    using Cons.prems by (auto simp: update_cell_def map_delete_absent)
  then obtain s1 where "cells (update_cell r (call (RemoveChild n) now) h) r
      = Some (DirectoryObject s1 (map_delete n entries))" ..
  from Cons.IH [OF this] obtain s' where
    "cells (foldl (\<lambda>h' nm. update_cell r (call (RemoveChild nm) now) h')
        (update_cell r (call (RemoveChild n) now) h) names) r
      = Some (DirectoryObject s' (filter (\<lambda>(k, _). k \<notin> set names) (map_delete n entries)))" ..
  moreover have "filter (\<lambda>(k, _). k \<notin> set names) (map_delete n entries)
      = filter (\<lambda>(k, _). k \<notin> set (n # names)) entries"
    unfolding map_delete_def by (induction entries) auto
  ultimately show ?case by auto
qed

lemma map_set_new: "k \<notin> fst ` set xs \<Longrightarrow> map_set k v xs = xs @ [(k, v)]"
  by (induction xs) auto

lemma add_children_cell:
  "cells h r = Some (DirectoryObject s acc) \<Longrightarrow> distinct (map fst (acc @ entries))
     \<Longrightarrow> \<exists>s'. cells (foldl (\<lambda>h' (nm, a). update_cell r (addChild_object nm a now) h') h entries) r
          = Some (DirectoryObject s' (acc @ entries))"
proof (induction entries arbitrary: h s acc)
  case Nil
  then show ?case by simp
next
  case (Cons e entries)
  obtain nm a where e: "e = (nm, a)" by (cases e)
  have "nm \<notin> fst ` set acc" using Cons.prems(2) e by auto
  then have "cells (update_cell r (addChild_object nm a now) h) r
      = Some (DirectoryObject (modified now s) (acc @ [(nm, a)]))"
    using Cons.prems(1) by (simp add: update_cell_def map_set_new)
  moreover have "distinct (map fst ((acc @ [(nm, a)]) @ entries))" using Cons.prems(2) e by simp
  ultimately obtain s' where
    "cells (foldl (\<lambda>h' (nm, a). update_cell r (addChild_object nm a now) h')
        (update_cell r (addChild_object nm a now) h) entries) r
      = Some (DirectoryObject s' ((acc @ [(nm, a)]) @ entries))"
    using Cons.IH by blast
  then show ?case using e by auto
qed

lemma represents_entries_keys:
  "represents_entries cs entries below \<Longrightarrow> map fst entries = map fst below"
proof (induction entries arbitrary: below)
  case Nil
  then show ?case by (cases below) auto
next
  case (Cons e entries)
  then show ?case by (cases below; cases e) auto
qed

lemma store_restoreSnapshot_unfold:
  "store_restoreSnapshot fuel now h snapshotId =
     (case map_of (snapshotRoots h) snapshotId of
        None \<Rightarrow> Some (Inl (SnapshotNotFound snapshotId), h)
      | Some snapshotRoot \<Rightarrow>
          (case clone_object fuel (emptied_root now h) snapshotRoot of
             None \<Rightarrow> None
           | Some (cloned, h2) \<Rightarrow> Some (Inr (), refilled_root now (rootAddress h) cloned h2)))"
  by (simp add: store_restoreSnapshot_def emptied_root_def refilled_root_def Let_def
      split: option.splits)

lemma emptied_root_changes: "changes_at h (rootAddress h) {} (emptied_root now h)"
  unfolding emptied_root_def
  by (rule changes_at_foldl, rule changes_at_update_cell)
    (use entries_call is_directory_call in auto)

lemma emptied_root_kept:
  assumes "kept h snapshotId stored t"
  shows "kept (emptied_root now h) snapshotId stored t"
    and "\<forall>x \<in> reach (cells h) stored. cells (emptied_root now h) x = cells h x"
    and "\<exists>s'. cells (emptied_root now h) (rootAddress h) = Some (DirectoryObject s' [])"
proof -
  have both: "kept (emptied_root now h) snapshotId stored t
      \<and> (\<forall>x \<in> reach (cells h) stored. cells (emptied_root now h) x = cells h x)"
    using changes_at_kept [OF assms emptied_root_changes reach.start] by simp
  then show "kept (emptied_root now h) snapshotId stored t"
    and "\<forall>x \<in> reach (cells h) stored. cells (emptied_root now h) x = cells h x"
    by simp_all
  obtain s entries where cell: "cells h (rootAddress h) = Some (DirectoryObject s entries)"
    using assms unfolding kept_def by (auto elim: is_directory.elims)
  have "filter (\<lambda>(k, _). k \<notin> set (map fst entries)) entries = []"
    by (force simp: filter_empty_conv)
  then show "\<exists>s'. cells (emptied_root now h) (rootAddress h) = Some (DirectoryObject s' [])"
    using remove_children_cell [OF cell, of now "map fst entries"] cell
    by (simp add: emptied_root_def)
qed

lemma refilled_root_kept:
  assumes "kept h0 snapshotId stored t" "cloned_ok h0 cloned h2"
  shows "kept (refilled_root now (rootAddress h0) cloned h2) snapshotId stored t"
    and "\<forall>x \<in> reach (cells h0) stored.
           cells (refilled_root now (rootAddress h0) cloned h2) x = cells h0 x"
    and "\<forall>nm c x. (nm, c) \<in> set (case cells h2 cloned of Some obj \<Rightarrow> entries_of obj | None \<Rightarrow> [])
           \<longrightarrow> x \<in> reach (cells h2) c
           \<longrightarrow> cells (refilled_root now (rootAddress h0) cloned h2) x = cells h2 x"
proof -
  define entries where
    "entries = (case cells h2 cloned of Some obj \<Rightarrow> entries_of obj | None \<Rightarrow> [])"
  define h' where "h' = refilled_root now (rootAddress h0) cloned h2"
  have ext: "extends h0 h2" and lo: "fresh h0 \<le> cloned" and hi: "cloned < fresh h2"
    using assms(2) by (auto simp: cloned_ok_def)
  have cl0: "closed h0" and st0: "stored < fresh h0" using assms(1) by (auto simp: kept_def)
  have root0: "rootAddress h0 < fresh h0" using cl0 by (simp add: closed_def)
  note k2 = extends_kept [OF assms(1) ext]
  have root2: "rootAddress h2 = rootAddress h0" using extends_fields [OF ext] by simp
  have ch: "changes_at h2 (rootAddress h0) (set entries) h'"
    unfolding h'_def refilled_root_def entries_def [symmetric]
  proof (rule changes_at_foldl)
    fix h x assume x: "x \<in> set entries"
    obtain nm a where "x = (nm, a)" by (cases x)
    then show "changes_at h (rootAddress h0) (set entries)
        (case x of (nm, a) \<Rightarrow> update_cell (rootAddress h0) (addChild_object nm a now) h)"
      using x changes_at_update_cell [of "addChild_object nm a now" "set entries" h "rootAddress h0"]
        entries_addChild [of nm a now] is_directory_addChild [of nm a now]
      by auto
  qed
  have new: "fresh h0 \<le> c \<and> c < fresh h2" if "(nm, c) \<in> set entries" for nm c
  proof -
    from that obtain obj where "cells h2 cloned = Some obj" "(nm, c) \<in> set (entries_of obj)"
      unfolding entries_def by (cases "cells h2 cloned") auto
    then show ?thesis using extends_new_entries [OF ext lo] by blast
  qed
  have same_new: "cells h' x = cells h2 x"
    if "(nm, c) \<in> set entries" "x \<in> reach (cells h2) c" for nm c x
  proof -
    have "x \<in> {fresh h0..<fresh h2}" using reach_new [OF ext] new [OF that(1)] that(2) by blast
    then have "x \<noteq> rootAddress h0" using root0 by simp
    then show ?thesis using ch by (simp add: changes_at_def)
  qed
  show "\<forall>nm c x. (nm, c) \<in> set (case cells h2 cloned of Some obj \<Rightarrow> entries_of obj | None \<Rightarrow> [])
      \<longrightarrow> x \<in> reach (cells h2) c
      \<longrightarrow> cells (refilled_root now (rootAddress h0) cloned h2) x = cells h2 x"
    using same_new unfolding entries_def h'_def by blast
  have "\<forall>(nm, c) \<in> set entries.
      c < fresh h2 \<and> reach (cells h') c \<inter> reach (cells h2) stored = {}"
  proof (intro ballI, clarify)
    fix nm c assume e: "(nm, c) \<in> set entries"
    have "reach (cells h') c = reach (cells h2) c"
      using reach_frame [of "cells h2" c "cells h'"] same_new [OF e] by blast
    moreover have "reach (cells h2) c \<subseteq> {fresh h0..<fresh h2}"
      using reach_new [OF ext] new [OF e] by blast
    moreover have "reach (cells h2) stored \<subseteq> {..<fresh h0}"
      using k2(3) reach_below_fresh [OF cl0 st0] by simp
    ultimately show "c < fresh h2 \<and> reach (cells h') c \<inter> reach (cells h2) stored = {}"
      using new [OF e] by fastforce
  qed
  moreover have "rootAddress h0 \<in> reach (cells h2) (rootAddress h2)"
    using root2 by (simp add: reach.start)
  ultimately have "kept h' snapshotId stored t
      \<and> (\<forall>x \<in> reach (cells h2) stored. cells h' x = cells h2 x)"
    using changes_at_kept [OF k2(1) ch] by blast
  then show "kept (refilled_root now (rootAddress h0) cloned h2) snapshotId stored t"
    and "\<forall>x \<in> reach (cells h0) stored.
           cells (refilled_root now (rootAddress h0) cloned h2) x = cells h0 x"
    using k2(3,4) unfolding h'_def by simp_all
qed

lemma restore_kept:
  assumes "kept h snapshotId stored t"
    and "store_restoreSnapshot fuel now h other = Some (Inr (), h')"
  shows "kept h' snapshotId stored t \<and> (\<forall>x \<in> reach (cells h) stored. cells h' x = cells h x)"
proof -
  from assms(2) obtain sr cloned h2 where
    cloneq: "clone_object fuel (emptied_root now h) sr = Some (cloned, h2)"
    and h': "h' = refilled_root now (rootAddress h) cloned h2"
    unfolding store_restoreSnapshot_unfold by (auto split: option.splits)
  note e = emptied_root_kept [OF assms(1), of now]
  have root: "rootAddress (emptied_root now h) = rootAddress h"
    using emptied_root_changes [of h now] by (simp add: changes_at_def)
  have "closed (emptied_root now h)" using e(1) by (simp add: kept_def)
  then have ok: "cloned_ok (emptied_root now h) cloned h2" using clone_object_ok cloneq by blast
  note r = refilled_root_kept [OF e(1) ok, of now]
  have "reach (cells (emptied_root now h)) stored = reach (cells h) stored"
    using reach_frame [of "cells h" stored "cells (emptied_root now h)"] e(2) by blast
  then show ?thesis using r(1,2) e(2) root h' by simp
qed

lemma step_kept:
  assumes "kept h snapshotId stored t" "step h h'"
  shows "kept h' snapshotId stored t \<and> (\<forall>x \<in> reach (cells h) stored. cells h' x = cells h x)"
  using assms(2)
proof cases
  case live
  then show ?thesis using live_step_kept [OF assms(1)] by blast
next
  case (restore fuel now other)
  then show ?thesis using restore_kept [OF assms(1)] by blast
qed

lemma steps_kept:
  assumes "rtranclp step h1 h2" "kept h1 snapshotId stored t"
  shows "kept h2 snapshotId stored t \<and> (\<forall>x \<in> reach (cells h1) stored. cells h2 x = cells h1 x)"
  using assms
proof (induction rule: rtranclp_induct)
  case base
  then show ?case by simp
next
  case (step h h')
  then have k: "kept h snapshotId stored t"
    and same: "\<forall>x \<in> reach (cells h1) stored. cells h x = cells h1 x"
    by simp_all
  have "reach (cells h) stored = reach (cells h1) stored"
    using reach_frame [of "cells h1" stored "cells h"] same by blast
  then show ?case using step_kept [OF k step.hyps(2)] same by simp
qed

lemma map_of_map_set: "map_of (map_set k v xs) k = Some v"
  by (induction xs) auto

text \<open>The pass of \<open>countNodes\<close> is a sequence of changes of the live tree.\<close>

lemma alike_refl: "alike h h"
  by (simp add: alike_def)

lemma alike_trans: "alike h h1 \<Longrightarrow> alike h1 h2 \<Longrightarrow> alike h h2"
  by (simp add: alike_def)

lemma alike_entries:
  "alike h h' \<Longrightarrow> cells h x = Some obj \<Longrightarrow> \<exists>obj'. cells h' x = Some obj' \<and> entries_of obj' = entries_of obj"
proof -
  assume a: "alike h h'" and c: "cells h x = Some obj"
  from a have "map_option entries_of (cells h' x) = map_option entries_of (cells h x)"
    by (simp add: alike_def)
  with c show ?thesis by (cases "cells h' x") auto
qed

lemma alike_sym: "alike h h' \<Longrightarrow> alike h' h"
  by (simp add: alike_def)

lemma alike_reach_subset:
  assumes "alike h h'"
  shows "reach (cells h) a \<subseteq> reach (cells h') a"
proof
  fix x assume "x \<in> reach (cells h) a"
  then show "x \<in> reach (cells h') a"
  proof (induction rule: reach.induct)
    case start
    then show ?case by (rule reach.start)
  next
    case (child b obj nm c)
    from alike_entries [OF assms child.hyps(2)] obtain obj' where
      "cells h' b = Some obj'" "entries_of obj' = entries_of obj" by blast
    then show ?case using child.IH child.hyps(3) reach.child [of b "cells h'" a obj' nm c] by simp
  qed
qed

lemma alike_reach: "alike h h' \<Longrightarrow> reach (cells h') a = reach (cells h) a"
  using alike_reach_subset [of h h' a] alike_reach_subset [OF alike_sym, of h h' a] by blast

lemma alike_fits: "alike h h' \<Longrightarrow> fits (cells h) n a \<Longrightarrow> fits (cells h') n a"
proof (induction n arbitrary: a)
  case 0
  then show ?case by simp
next
  case (Suc n)
  from Suc.prems(2) obtain obj where c: "cells h a = Some obj"
    and below: "\<forall>(nm, c) \<in> set (entries_of obj). fits (cells h) n c"
    by (auto split: option.splits)
  from alike_entries [OF Suc.prems(1) c] obtain obj' where
    c': "cells h' a = Some obj'" and e: "entries_of obj' = entries_of obj" by blast
  have "\<forall>(nm, c) \<in> set (entries_of obj'). fits (cells h') n c"
    using below e Suc.IH [OF Suc.prems(1)] by auto
  then show ?case using c' by simp
qed

lemma represents_fits:
  "represents cs a t \<Longrightarrow> height t \<le> n \<Longrightarrow> fits cs n a"
  "represents_entries cs entries below \<Longrightarrow> height_entries below \<le> n
     \<Longrightarrow> \<forall>(nm, c) \<in> set entries. fits cs n c"
proof (induction cs a t and cs entries below arbitrary: n and n rule: represents_represents_entries.induct)
  case (1 cs a s content)
  then show ?case by (cases n) auto
next
  case (2 cs a s target)
  then show ?case by (cases n) auto
next
  case (3 cs a s below)
  then obtain m where n: "n = Suc m" and m: "height_entries below \<le> m" by (cases n) auto
  from 3(2) obtain entries where c: "cs a = Some (DirectoryObject s entries)"
    and r: "represents_entries cs entries below"
    by (auto split: option.splits object.splits)
  have "\<forall>(nm, c) \<in> set entries. fits cs m c" using 3(1) [OF c refl r m] .
  then show ?case using c n by simp
next
  case (4 cs)
  then show ?case by simp
next
  case (5 cs nm a entries nm' t below)
  then show ?case by auto
next
  case (6 cs x below)
  then show ?case by simp
next
  case (7 cs e entries)
  then show ?case by simp
qed


lemma update_cell_touch_alike: "alike h (update_cell a (call Touch now) h)"
proof (cases "cells h a")
  case None
  then show ?thesis by (simp add: update_cell_def alike_def)
next
  case (Some obj)
  have "entries_of (call Touch now obj) = entries_of obj" by (cases obj) simp_all
  then show ?thesis using Some by (simp add: update_cell_def alike_def)
qed

lemma counted_refl: "counted h (Some h)"
  by (simp add: counted_def alike_refl)

lemma counted_after:
  assumes "rtranclp step h h1" "alike h h1" "counted h1 r"
  shows "counted h r"
proof -
  from assms(3) obtain h' where "r = Some h'" "rtranclp step h1 h'" "alike h1 h'"
    by (auto simp: counted_def)
  then show ?thesis using assms(1,2) alike_trans [of h h1 h'] by (auto simp: counted_def)
qed

lemma countNodes_entries_counted:
  assumes objs: "\<And>h a. fits (cells h) fuel a \<Longrightarrow> a \<in> reach (cells h) (rootAddress h)
                   \<Longrightarrow> counted h (countNodes_object fuel now h a)"
  shows "\<forall>(nm, c) \<in> set entries. fits (cells h) fuel c \<and> c \<in> reach (cells h) (rootAddress h)
           \<Longrightarrow> counted h (countNodes_entries fuel now h entries)"
proof (induction entries arbitrary: h)
  case Nil
  then show ?case by (simp add: counted_refl)
next
  case (Cons e entries)
  obtain nm a where e: "e = (nm, a)" by (cases e)
  have "counted h (countNodes_object fuel now h a)" using Cons.prems e objs by simp
  then obtain h1 where first: "countNodes_object fuel now h a = Some h1"
    and steps: "rtranclp step h h1" and al: "alike h h1"
    by (auto simp: counted_def)
  have "\<forall>(nm, c) \<in> set entries. fits (cells h1) fuel c \<and> c \<in> reach (cells h1) (rootAddress h1)"
  proof -
    have "rootAddress h1 = rootAddress h" using al by (simp add: alike_def)
    then show ?thesis using Cons.prems alike_fits [OF al] alike_reach [OF al] by auto
  qed
  then have "counted h1 (countNodes_entries fuel now h1 entries)" by (rule Cons.IH)
  then have "counted h (countNodes_entries fuel now h1 entries)"
    using counted_after [OF steps al] by simp
  then show ?case using first e by simp
qed

lemma countNodes_object_counted:
  "fits (cells h) fuel a \<Longrightarrow> a \<in> reach (cells h) (rootAddress h)
     \<Longrightarrow> counted h (countNodes_object fuel now h a)"
proof (induction fuel arbitrary: h a)
  case 0
  then show ?case by simp
next
  case (Suc fuel)
  from Suc.prems(1) obtain obj where c: "cells h a = Some obj"
    and below: "\<forall>(nm, c) \<in> set (entries_of obj). fits (cells h) fuel c"
    by (auto split: option.splits)
  show ?case
  proof (cases obj)
    case (FileObject s content)
    then show ?thesis using c by (simp add: counted_refl)
  next
    case (SymlinkObject s target)
    then show ?thesis using c by (simp add: counted_refl)
  next
    case (DirectoryObject s entries)
    define h1 where "h1 = update_cell a (call Touch now) h"
    have al: "alike h h1" unfolding h1_def by (rule update_cell_touch_alike)
    have "live_step h h1" unfolding h1_def using Suc.prems(2) by (rule live_step.mutator_call)
    then have "step h h1" by (rule step.live)
    then have steps: "rtranclp step h h1" by (rule r_into_rtranclp)
    have root: "rootAddress h1 = rootAddress h" using al by (simp add: alike_def)
    have "\<forall>(nm, c) \<in> set entries. fits (cells h1) fuel c \<and> c \<in> reach (cells h1) (rootAddress h1)"
    proof -
      have "c \<in> reach (cells h) (rootAddress h)" if "(nm, c) \<in> set entries" for nm c
        using reach.child [of a "cells h" "rootAddress h" obj nm c] Suc.prems(2) c that
          DirectoryObject by simp
      then show ?thesis using below DirectoryObject alike_fits [OF al] alike_reach [OF al] root
        by auto
    qed
    then have "counted h1 (countNodes_entries fuel now h1 entries)"
      using countNodes_entries_counted [of fuel now entries h1] Suc.IH by blast
    then have "counted h (countNodes_entries fuel now h1 entries)"
      using counted_after [OF steps al] by simp
    then show ?thesis using c DirectoryObject by (simp add: h1_def)
  qed
qed

lemma countNodes_fields:
  "countNodes_object fuel now (h \<lparr> counter := n, snapshotRoots := r \<rparr>) a
     = map_option (\<lambda>x. x \<lparr> counter := n, snapshotRoots := r \<rparr>) (countNodes_object fuel now h a)"
  "countNodes_entries fuel now (h \<lparr> counter := n, snapshotRoots := r \<rparr>) entries
     = map_option (\<lambda>x. x \<lparr> counter := n, snapshotRoots := r \<rparr>) (countNodes_entries fuel now h entries)"
proof (induction fuel now h a and fuel now h entries rule: countNodes_object_countNodes_entries.induct)
  case (1 now h a)
  then show ?case by simp
next
  case (2 fuel now h a)
  have "update_cell a f (h \<lparr> counter := n, snapshotRoots := r \<rparr>)
          = (update_cell a f h) \<lparr> counter := n, snapshotRoots := r \<rparr>" for f
    by (simp add: update_cell_def split: option.splits)
  then show ?case using 2 by (auto split: option.splits object.splits)
next
  case (3 fuel now h)
  then show ?case by simp
next
  case (4 fuel now h nm a rest)
  then show ?case by (auto split: option.splits)
qed


lemma cloned_root_kept:
  assumes "closed h0" "represents (cells h0) (rootAddress h0) t"
    and "is_directory (cells h0 (rootAddress h0))" "height t \<le> fuel"
  shows "\<exists>stored h'. clone_object fuel h0 (rootAddress h0) = Some (stored, h')
           \<and> rootAddress h' = rootAddress h0
           \<and> represents (cells h') (rootAddress h0) t
           \<and> kept (h' \<lparr> counter := n, snapshotRoots := map_set snapshotId stored (snapshotRoots h') \<rparr>)
                snapshotId stored t"
proof -
  have root: "rootAddress h0 < fresh h0" using assms(1) by (simp add: closed_def)
  from clone_object_represents [OF assms(1) root assms(2,4)] obtain a' h' where
    cloneq: "clone_object fuel h0 (rootAddress h0) = Some (a', h')"
    and rep: "represents (cells h') a' t"
    by blast
  have ok: "cloned_ok h0 a' h'" using clone_object_ok [OF assms(1) cloneq] .
  then have ext: "extends h0 h'" and lo: "fresh h0 \<le> a'" and hi: "a' < fresh h'"
    by (auto simp: cloned_ok_def)
  define h1 where "h1 = h' \<lparr> counter := n,
      snapshotRoots := map_set snapshotId a' (snapshotRoots h') \<rparr>"
  have cl': "closed h'" using extends_closed [OF assms(1) ext] .
  have "closed h1" using cl' by (simp add: closed_def h1_def)
  moreover have "cells h1 (rootAddress h1) = cells h0 (rootAddress h0)"
    using extends_same [OF ext root] extends_fields [OF ext] by (simp add: h1_def)
  moreover have "map_of (snapshotRoots h1) snapshotId = Some a'"
    by (simp add: h1_def map_of_map_set)
  moreover have "reach (cells h1) (rootAddress h1) \<inter> reach (cells h1) a' = {}"
  proof -
    have "\<And>x. x \<in> reach (cells h0) (rootAddress h0) \<Longrightarrow> cells h' x = cells h0 x"
      using reach_below_fresh [OF assms(1) root] extends_same [OF ext] by blast
    then have "reach (cells h') (rootAddress h0) \<subseteq> reach (cells h0) (rootAddress h0)"
      using reach_frame_subset [of "cells h0" "rootAddress h0" "cells h'"] by blast
    then have "reach (cells h') (rootAddress h0) \<subseteq> {..<fresh h0}"
      using reach_below_fresh [OF assms(1) root] by blast
    moreover have "reach (cells h') a' \<subseteq> {fresh h0..<fresh h'}"
      using reach_new [OF ext lo hi] .
    ultimately show ?thesis using extends_fields [OF ext] by (fastforce simp: h1_def)
  qed
  ultimately have k: "kept h1 snapshotId a' t"
    using assms(3) hi rep by (simp add: kept_def h1_def)
  have live: "represents (cells h') (rootAddress h0) t"
    using represents_extends [OF assms(1) ext root assms(2)] .
  have "rootAddress h' = rootAddress h0" using extends_fields [OF ext] by simp
  with cloneq live k show ?thesis unfolding h1_def by blast
qed

lemma createSnapshot_kept:
  assumes "closed h0" "represents (cells h0) (rootAddress h0) t"
    and "is_directory (cells h0 (rootAddress h0))" "height t \<le> fuel"
  shows "\<exists>snapshotId h1 stored. store_createSnapshot fuel now h0 = Some (snapshotId, h1)
           \<and> kept h1 snapshotId stored t"
proof -
  define n where "n = counter h0 + 1"
  define snapshotId where "snapshotId = ''snapshot-'' @ show_nat n"
  from cloned_root_kept [OF assms, where n = n and snapshotId = snapshotId] obtain stored h' where
    cloneq: "clone_object fuel h0 (rootAddress h0) = Some (stored, h')"
    and root: "rootAddress h' = rootAddress h0"
    and live: "represents (cells h') (rootAddress h0) t"
    and k: "kept (h' \<lparr> counter := n, snapshotRoots := map_set snapshotId stored (snapshotRoots h') \<rparr>)
              snapshotId stored t"
    by blast
  define registered where
    "registered = h' \<lparr> counter := n, snapshotRoots := map_set snapshotId stored (snapshotRoots h') \<rparr>"
  have fit: "fits (cells h') fuel (rootAddress h')"
    using represents_fits(1) [OF live assms(4)] root by simp
  have "counted h' (countNodes_object fuel now h' (rootAddress h'))"
    using fit by (rule countNodes_object_counted) (rule reach.start)
  then obtain hc where count: "countNodes_object fuel now h' (rootAddress h') = Some hc"
    and al: "alike h' hc"
    by (auto simp: counted_def)
  define h1 where
    "h1 = hc \<lparr> counter := n, snapshotRoots := map_set snapshotId stored (snapshotRoots hc) \<rparr>"
  have roots: "snapshotRoots hc = snapshotRoots h'" using al by (simp add: alike_def)
  have result: "store_createSnapshot fuel now h0 = Some (snapshotId, h1)"
    using cloneq count root
    by (simp add: store_createSnapshot_def Let_def snapshotId_def n_def h1_def)
  have "countNodes_object fuel now registered (rootAddress registered) = Some h1"
    using countNodes_fields(1) [where fuel = fuel and now = now and h = h' and n = n
        and r = "map_set snapshotId stored (snapshotRoots h')" and a = "rootAddress h'"] count roots
    by (simp add: registered_def h1_def)
  moreover have "counted registered (countNodes_object fuel now registered (rootAddress registered))"
  proof (rule countNodes_object_counted)
    show "fits (cells registered) fuel (rootAddress registered)"
      using fit by (simp add: registered_def)
    show "rootAddress registered \<in> reach (cells registered) (rootAddress registered)"
      by (rule reach.start)
  qed
  ultimately have "rtranclp step registered h1" by (simp add: counted_def)
  from steps_kept [OF this k [folded registered_def]]
  have "kept h1 snapshotId stored t" by blast
  then show ?thesis using result by blast
qed

lemma refilled_root_rootAddress: "rootAddress (refilled_root now r cloned h2) = rootAddress h2"
proof -
  have "rootAddress (foldl (\<lambda>h' (nm, a). update_cell r (addChild_object nm a now) h') h xs)
      = rootAddress h" for h xs
    by (induction xs arbitrary: h) (auto simp: update_cell_def split: option.splits)
  then show ?thesis by (simp add: refilled_root_def)
qed

lemma restore_result:
  assumes "kept h snapshotId stored (DirectoryTree s0 below0)"
    and "distinct (map fst below0)" "height (DirectoryTree s0 below0) \<le> fuel"
  shows "\<exists>h' s'. store_restoreSnapshot fuel now h snapshotId = Some (Inr (), h')
           \<and> represents (cells h') (rootAddress h') (DirectoryTree s' below0)"
proof -
  define e where "e = emptied_root now h"
  note ek = emptied_root_kept [OF assms(1), of now, folded e_def]
  have cle: "closed e" and ste: "stored < fresh e"
    and repe: "represents (cells e) stored (DirectoryTree s0 below0)"
    and rege: "map_of (snapshotRoots e) snapshotId = Some stored"
    using ek(1) by (auto simp: kept_def)
  have roote: "rootAddress e = rootAddress h" and rege': "snapshotRoots e = snapshotRoots h"
    using emptied_root_changes [of h now] by (simp_all add: changes_at_def e_def)
  from clone_object_represents [OF cle ste repe assms(3)] obtain cloned h2 where
    cloneq: "clone_object fuel e stored = Some (cloned, h2)"
    and rep2: "represents (cells h2) cloned (DirectoryTree s0 below0)"
    by blast
  from rep2 obtain entries where cell2: "cells h2 cloned = Some (DirectoryObject s0 entries)"
    and reps2: "represents_entries (cells h2) entries below0"
    by (auto split: option.splits object.splits)
  have ok: "cloned_ok e cloned h2" using clone_object_ok [OF cle cloneq] .
  then have ext: "extends e h2" by (simp add: cloned_ok_def)
  define h' where "h' = refilled_root now (rootAddress h) cloned h2"
  have result: "store_restoreSnapshot fuel now h snapshotId = Some (Inr (), h')"
    using rege rege' cloneq by (simp add: store_restoreSnapshot_unfold e_def [symmetric] h'_def)
  obtain se where "cells e (rootAddress h) = Some (DirectoryObject se [])" using ek(3) by blast
  moreover have "rootAddress h < fresh e" using cle roote by (simp add: closed_def)
  ultimately have root2: "cells h2 (rootAddress h) = Some (DirectoryObject se [])"
    using extends_same [OF ext] by simp
  have "distinct (map fst ([] @ entries))"
    using represents_entries_keys [OF reps2] assms(2) by simp
  from add_children_cell [OF root2 this, of now] obtain s' where
    root': "cells h' (rootAddress h) = Some (DirectoryObject s' entries)"
    using cell2 by (auto simp: h'_def refilled_root_def)
  note r = refilled_root_kept [OF ek(1) ok, of now, unfolded roote, folded h'_def]
  have "represents_entries (cells h') entries below0"
    using represents_frame(2) [OF reps2, of "cells h'"] r(3) cell2 by simp
  moreover have "rootAddress h' = rootAddress h"
    using refilled_root_rootAddress [of now "rootAddress h" cloned h2] extends_fields [OF ext] roote
    by (simp add: h'_def)
  ultimately have "represents (cells h') (rootAddress h') (DirectoryTree s' below0)"
    using root' by simp
  then show ?thesis using result by blast
qed

text \<open>
  Claim C5: a snapshot is not changed through the live tree. Let the live tree have the
  value of a directory tree when \<open>createSnapshot\<close> is called, in a closed store and with
  fuel for the height of the tree. Then \<open>createSnapshot\<close>, at whatever time it is called,
  returns an id and stores a tree of that value, and after every sequence of changes of the live tree and of restores,
  the id names the same stored root, every object of the stored tree is what it was, the
  stored tree has the same value, and \<open>restoreSnapshot\<close> of the id returns and leaves a
  root whose children have exactly the value they had when the snapshot was made:
  names, kinds, contents and stats.
\<close>

theorem snapshot_unchanged_by_live_changes_and_restores:
  assumes "closed h0"
    and "represents (cells h0) (rootAddress h0) (DirectoryTree s0 below0)"
    and "distinct (map fst below0)"
    and "height (DirectoryTree s0 below0) \<le> fuel"
  shows "\<exists>snapshotId h1 stored.
      store_createSnapshot fuel clock h0 = Some (snapshotId, h1)
      \<and> map_of (snapshotRoots h1) snapshotId = Some stored
      \<and> represents (cells h1) stored (DirectoryTree s0 below0)
      \<and> (\<forall>h2. rtranclp step h1 h2 \<longrightarrow>
            map_of (snapshotRoots h2) snapshotId = Some stored
            \<and> (\<forall>x \<in> reach (cells h1) stored. cells h2 x = cells h1 x)
            \<and> represents (cells h2) stored (DirectoryTree s0 below0)
            \<and> (\<forall>now. \<exists>h3 s3.
                  store_restoreSnapshot fuel now h2 snapshotId = Some (Inr (), h3)
                  \<and> represents (cells h3) (rootAddress h3) (DirectoryTree s3 below0)))"
proof -
  have dir: "is_directory (cells h0 (rootAddress h0))"
    using assms(2) by (auto split: option.splits object.splits)
  from createSnapshot_kept [OF assms(1,2) dir assms(4), where now = clock] obtain snapshotId h1 stored where
    created: "store_createSnapshot fuel clock h0 = Some (snapshotId, h1)"
    and k1: "kept h1 snapshotId stored (DirectoryTree s0 below0)"
    by blast
  have reg1: "map_of (snapshotRoots h1) snapshotId = Some stored"
    and rep1: "represents (cells h1) stored (DirectoryTree s0 below0)"
    using k1 unfolding kept_def by blast+
  have later: "\<forall>h2. rtranclp step h1 h2 \<longrightarrow>
      map_of (snapshotRoots h2) snapshotId = Some stored
      \<and> (\<forall>x \<in> reach (cells h1) stored. cells h2 x = cells h1 x)
      \<and> represents (cells h2) stored (DirectoryTree s0 below0)
      \<and> (\<forall>now. \<exists>h3 s3.
            store_restoreSnapshot fuel now h2 snapshotId = Some (Inr (), h3)
            \<and> represents (cells h3) (rootAddress h3) (DirectoryTree s3 below0))"
  proof (intro allI impI)
    fix h2 assume steps: "rtranclp step h1 h2"
    from steps_kept [OF steps k1] have k2: "kept h2 snapshotId stored (DirectoryTree s0 below0)"
      and same: "\<forall>x \<in> reach (cells h1) stored. cells h2 x = cells h1 x"
      by blast+
    have reg2: "map_of (snapshotRoots h2) snapshotId = Some stored"
      and rep2: "represents (cells h2) stored (DirectoryTree s0 below0)"
      using k2 unfolding kept_def by blast+
    have res: "\<forall>now. \<exists>h3 s3.
        store_restoreSnapshot fuel now h2 snapshotId = Some (Inr (), h3)
        \<and> represents (cells h3) (rootAddress h3) (DirectoryTree s3 below0)"
      using restore_result [OF k2 assms(3,4)] by blast
    from reg2 same rep2 res
    show "map_of (snapshotRoots h2) snapshotId = Some stored
      \<and> (\<forall>x \<in> reach (cells h1) stored. cells h2 x = cells h1 x)
      \<and> represents (cells h2) stored (DirectoryTree s0 below0)
      \<and> (\<forall>now. \<exists>h3 s3.
            store_restoreSnapshot fuel now h2 snapshotId = Some (Inr (), h3)
            \<and> represents (cells h3) (rootAddress h3) (DirectoryTree s3 below0))"
      by (intro conjI)
  qed
  from created reg1 rep1 later show ?thesis
    by (intro exI [of _ snapshotId] exI [of _ h1] exI [of _ stored] conjI)
qed

theorem snapshot_unchanged_by_live_changes_and_restores_witness:
  "\<exists>snapshotId h1 h3 s3.
     store_createSnapshot 2 3 example_store = Some (snapshotId, h1)
     \<and> live_step h1 (update_cell (rootAddress h1) (call (RemoveChild ''f'') 5) h1)
     \<and> store_restoreSnapshot 2 7 (update_cell (rootAddress h1) (call (RemoveChild ''f'') 5) h1)
           snapshotId = Some (Inr (), h3)
     \<and> represents (cells h3) (rootAddress h3)
           (DirectoryTree s3 [(''f'', FileTree example_stats [104, 105])])"
proof -
  have c: "closed example_store"
    by (auto simp: closed_def example_store_def split: if_splits)
  have r: "represents (cells example_store) (rootAddress example_store)
      (DirectoryTree example_stats [(''f'', FileTree example_stats [104, 105])])"
    by (simp add: example_store_def)
  have d: "distinct (map fst [(''f'', FileTree example_stats [104, 105])])" by simp
  have h: "height (DirectoryTree example_stats [(''f'', FileTree example_stats [104, 105])]) \<le> 2"
    by simp
  from snapshot_unchanged_by_live_changes_and_restores [OF c r d h, where clock = 3]
  obtain snapshotId h1 stored where
    created: "store_createSnapshot 2 3 example_store = Some (snapshotId, h1)"
    and later: "\<forall>h2. rtranclp step h1 h2 \<longrightarrow>
      map_of (snapshotRoots h2) snapshotId = Some stored
      \<and> (\<forall>x \<in> reach (cells h1) stored. cells h2 x = cells h1 x)
      \<and> represents (cells h2) stored
           (DirectoryTree example_stats [(''f'', FileTree example_stats [104, 105])])
      \<and> (\<forall>now. \<exists>h3 s3.
            store_restoreSnapshot 2 now h2 snapshotId = Some (Inr (), h3)
            \<and> represents (cells h3) (rootAddress h3)
                 (DirectoryTree s3 [(''f'', FileTree example_stats [104, 105])]))"
    by blast
  define h2 where "h2 = update_cell (rootAddress h1) (call (RemoveChild ''f'') 5) h1"
  have live: "live_step h1 h2"
    unfolding h2_def by (rule live_step.mutator_call) (rule reach.start)
  then have "step h1 h2" by (rule step.live)
  then have "rtranclp step h1 h2" by (rule r_into_rtranclp)
  with later have "\<forall>now. \<exists>h3 s3.
      store_restoreSnapshot 2 now h2 snapshotId = Some (Inr (), h3)
      \<and> represents (cells h3) (rootAddress h3)
           (DirectoryTree s3 [(''f'', FileTree example_stats [104, 105])])"
    by blast
  then obtain h3 s3 where
    "store_restoreSnapshot 2 7 h2 snapshotId = Some (Inr (), h3)"
    "represents (cells h3) (rootAddress h3)
       (DirectoryTree s3 [(''f'', FileTree example_stats [104, 105])])"
    by blast
  with created live show ?thesis unfolding h2_def by blast
qed


end
